theory Spec2Isabelle
  imports Main "HOL-Library.Sublist" "HOL-Library.Word"
begin

chapter \<open>The S3 transfer engine of libtsuba\<close>

text \<open>
  A shallow embedding of \<^verbatim>\<open>libtsuba/src/s3.cpp\<close> and of the \<^verbatim>\<open>ReadGroup\<close> header.
  Sizes and offsets are \<^verbatim>\<open>uint64_t\<close> in the source; they are natural numbers here and
  the places where the arithmetic can wrap around (an absolute offset
  \<^verbatim>\<open>start + ...\<close>, a difference of offsets) are written through \<open>u64\<close> and \<open>u64_sub\<close>.
  A call of the source can end in three ways: it returns a \<^verbatim>\<open>galois::Result\<close> (success
  or an \<^verbatim>\<open>ErrorCode\<close>), the process is aborted by a failed assertion or by
  \<^verbatim>\<open>GALOIS_LOG_FATAL\<close>, or it blocks forever on a condition variable. The remote
  service is a parameter of every operation: its answers are data, and the requests
  the client issues are collected in a trace. Log statements and the fault-injection
  points \<^verbatim>\<open>TSUBA_PTP\<close>, which do nothing outside fault tests, are left out.
\<close>

section \<open>Constants\<close>

text \<open>
  Modelled from the spec: the macros \<^verbatim>\<open>MB\<close> and \<^verbatim>\<open>GB\<close> come from a header that is not
  among the sources, and the spec (6) names the sizes built with them only as the
  default, minimum and maximum segment size. They are read in the binary sense of the
  service limits the source points to (5 MiB minimum part, 5 GiB maximum part, 8 MiB
  default chunk). The other constants are literals of s3.cpp (lines 49-54).
\<close>

definition MB :: "nat \<Rightarrow> nat" where
  "MB x = x * 2 ^ 20"

definition GB :: "nat \<Rightarrow> nat" where
  "GB x = x * 2 ^ 30"

definition kS3MinBufSize :: nat where
  "kS3MinBufSize = MB 5"

definition kS3DefaultBufSize :: nat where
  "kS3DefaultBufSize = MB 8"

definition kS3MaxBufSize :: nat where
  "kS3MaxBufSize = GB 5"

definition kS3MaxMultiPart :: nat where
  "kS3MaxMultiPart = 10000"

definition kS3MaxDelete :: nat where
  "kS3MaxDelete = 995"

definition u64 :: "nat \<Rightarrow> nat" where
  "u64 n = n mod 2 ^ 64"

section \<open>Ways a call can end\<close>

text \<open>
  The ways a call does not return to its caller. \<open>AssertionFailed\<close>: a
  \<^verbatim>\<open>GALOIS_LOG_ASSERT\<close> or \<^verbatim>\<open>GALOIS_LOG_VASSERT\<close> did not hold; \<open>FatalError\<close>:
  \<^verbatim>\<open>GALOIS_LOG_FATAL\<close> was reached; \<open>NullClient\<close>: the global \<^verbatim>\<open>async_s3_client\<close> was used
  before \<^verbatim>\<open>S3Init\<close> set it. These three end the process. \<open>BlocksForever\<close>: the call
  waits on a condition that never comes true.
\<close>

datatype stop = AssertionFailed | FatalError | NullClient | BlocksForever

text \<open>
  Modelled from the spec: the enumeration \<^verbatim>\<open>tsuba::ErrorCode\<close> (header \<^verbatim>\<open>tsuba/Errors.h\<close>)
  is not among the sources. Its members here are the ones the sources name
  (\<open>S3Error\<close>, \<open>AWSWrongRegion\<close>, \<open>TODO\<close>) and the \<open>NotFound\<close> of the spec's error
  taxonomy (7).
\<close>

datatype ErrorCode = NotFound | AWSWrongRegion | S3Error | TODO

text \<open>
  An outcome of the AWS SDK: a result, or an error, of which the sources read the
  HTTP response code.
\<close>

datatype 'a Outcome = Success 'a | Failure nat

definition MOVED_PERMANENTLY :: nat where
  "MOVED_PERMANENTLY = 301"

text \<open>\<^verbatim>\<open>CheckS3Error\<close> (s3.cpp, lines 161-173).\<close>

definition CheckS3Error :: "'a Outcome \<Rightarrow> ErrorCode + unit" where
  "CheckS3Error outcome =
     (case outcome of
        Success _ \<Rightarrow> Inr ()
      | Failure code \<Rightarrow> if code = MOVED_PERMANENTLY then Inl AWSWrongRegion else Inl S3Error)"

section \<open>Segmenting a buffer\<close>

text \<open>
  \<^verbatim>\<open>SegmentedBufferView::BufPart\<close>: absolute start offset, exclusive end offset, and the
  destination pointer, kept as an offset into the caller's buffer.
\<close>

record BufPart =
  bp_start :: nat
  bp_end :: nat
  bp_dest :: nat

definition part_len :: "BufPart \<Rightarrow> nat" where
  "part_len p = bp_end p - bp_start p"

text \<open>
  Modelled from the spec: the class \<^verbatim>\<open>SegmentedBufferView\<close> (header
  \<^verbatim>\<open>SegmentedBufferView.h\<close>) is not among the sources. The spec (3, 4.1, 8) describes
  it as a pure transform of a byte range \<open>{start, size}\<close> and a segment size (its
  \<open>maxPartSize\<close>) into an ordered sequence of parts with absolute \<open>uint64\<close> start and
  exclusive end offsets and a pointer into the buffer, empty for a zero-length range.
  The view below cuts the range into consecutive parts of the segment size, the last
  part taking what is left. The segment size is positive at every call of the source
  (\<open>SegmentBuf\<close> passes 8 MiB or a value it asserted to exceed 5 MiB).
\<close>

record SegmentedBufferView =
  view_start :: nat
  view_size :: nat
  view_segment_size :: nat

definition NumSegments :: "SegmentedBufferView \<Rightarrow> nat" where
  "NumSegments v = (view_size v + view_segment_size v - 1) div view_segment_size v"

definition GetPart :: "SegmentedBufferView \<Rightarrow> nat \<Rightarrow> BufPart" where
  "GetPart v i =
     \<lparr> bp_start = u64 (view_start v + i * view_segment_size v),
       bp_end = u64 (view_start v + min ((i + 1) * view_segment_size v) (view_size v)),
       bp_dest = i * view_segment_size v \<rparr>"

definition view_parts :: "SegmentedBufferView \<Rightarrow> BufPart list" where
  "view_parts v = map (GetPart v) [0..<NumSegments v]"

text \<open>
  \<^verbatim>\<open>SegmentBuf\<close> (s3.cpp, lines 175-190), from the source. The data pointer is left
  out: destinations are offsets.
\<close>

definition SegmentBuf :: "nat \<Rightarrow> nat \<Rightarrow> stop + SegmentedBufferView" where
  "SegmentBuf start sz =
     (if sz div kS3DefaultBufSize > kS3MaxMultiPart then
        (let segment_size = sz div (kS3MaxMultiPart + 1) in
         if segment_size > kS3MinBufSize \<and> segment_size < kS3MaxBufSize
         then Inr \<lparr>view_start = start, view_size = sz, view_segment_size = segment_size\<rparr>
         else Inl AssertionFailed)
      else Inr \<lparr>view_start = start, view_size = sz, view_segment_size = kS3DefaultBufSize\<rparr>)"

text \<open>
  \<open>chained a ps b\<close>: the parts \<open>ps\<close> tile the interval from \<open>a\<close> to \<open>b\<close> in order. The
  first part starts at \<open>a\<close>, every part is non-empty and starts where its predecessor
  ends, and the last part ends at \<open>b\<close>.
\<close>

fun chained :: "nat \<Rightarrow> BufPart list \<Rightarrow> nat \<Rightarrow> bool" where
  "chained a [] b = (a = b)"
| "chained a (p # ps) b = (bp_start p = a \<and> a < bp_end p \<and> chained (bp_end p) ps b)"

section \<open>Requests to the remote store\<close>

text \<open>
  The request of a ranged download: bucket, key, the \<^verbatim>\<open>Range\<close> header, and the
  preallocated stream buffer that receives the response (its place in the caller's
  buffer and its length in bytes).
\<close>

record GetObjectRequest =
  get_bucket :: string
  get_key :: string
  get_range :: string
  get_dest :: nat
  get_length :: nat

text \<open>
  One constructor for each method of the S3 client the sources call. The fields are
  what the sources set: bucket and key first; a put carries the body length; a part
  upload the upload id, the part number, the place of the body in the caller's buffer
  and its length; a completion the upload id and the list of (part number, ETag); a
  listing the prefix and the continuation token, if one was set.
\<close>

datatype request =
    HeadObject string string
  | GetObject GetObjectRequest
  | GetObjectAsync GetObjectRequest
  | PutObject string string nat
  | PutObjectAsync string string nat
  | CreateMultipartUpload string string
  | CreateMultipartUploadCallable string string
  | UploadPartAsync string string string nat nat nat
  | CompleteMultipartUpload string string string "(nat \<times> string) list"
  | CompleteMultipartUploadCallable string string string "(nat \<times> string) list"
  | DeleteObjects string "string list"
  | ListObjectsV2 string string "string option"

text \<open>What a call gives back: it stops, or it returns a \<^verbatim>\<open>galois::Result<void>\<close>.\<close>

type_synonym result = "stop + (ErrorCode + unit)"

definition ResultSuccess :: result where
  "ResultSuccess = Inr (Inr ())"

definition ResultError :: "ErrorCode \<Rightarrow> result" where
  "ResultError e = Inr (Inl e)"

section \<open>Size of an object\<close>

text \<open>
  \<^verbatim>\<open>S3GetSize\<close> (s3.cpp, lines 221-244). \<open>library_init\<close> is the global flag that
  \<^verbatim>\<open>GetS3Client()\<close> asserts; \<open>head\<close> is the remote's answer to a \<^verbatim>\<open>HeadObject\<close> request,
  the content length on success; \<open>size0\<close> is what \<^verbatim>\<open>*size\<close> held before the call. The
  value is the trace of requests, the result, and \<^verbatim>\<open>*size\<close> after the call.
\<close>

definition S3GetSize ::
  "bool \<Rightarrow> (string \<Rightarrow> string \<Rightarrow> nat Outcome) \<Rightarrow> string \<Rightarrow> string \<Rightarrow> nat
     \<Rightarrow> request list \<times> result \<times> nat" where
  "S3GetSize library_init head bucket object size0 =
     (if \<not> library_init then ([], Inl AssertionFailed, size0)
      else
        let outcome = head bucket object in
        case CheckS3Error outcome of
          Inl e \<Rightarrow> ([HeadObject bucket object], ResultError e, size0)
        | Inr _ \<Rightarrow>
            ([HeadObject bucket object], ResultSuccess,
             (case outcome of Success content_length \<Rightarrow> content_length | Failure _ \<Rightarrow> size0)))"

section \<open>Ranged downloads\<close>

text \<open>Subtraction of \<^verbatim>\<open>uint64_t\<close> values, with the wrap-around written out.\<close>

definition u64_sub :: "nat \<Rightarrow> nat \<Rightarrow> nat" where
  "u64_sub a b = (a + 2 ^ 64 - b mod 2 ^ 64) mod 2 ^ 64"

text \<open>What \<^verbatim>\<open>operator<<\<close> writes for an unsigned integer: its decimal digits.\<close>

definition digit_char :: "nat \<Rightarrow> char" where
  "digit_char d = ''0123456789'' ! d"

function dec :: "nat \<Rightarrow> string" where
  "dec n = (if n < 10 then [digit_char n] else dec (n div 10) @ [digit_char (n mod 10)])"
  by pat_completeness auto
termination
  by (relation "measure id") auto

declare dec.simps [simp del]

text \<open>The value a string of decimal digits denotes, reading from the left.\<close>

definition digit_val :: "char \<Rightarrow> nat" where
  "digit_val c = of_char c - 48"

definition undec :: "string \<Rightarrow> nat" where
  "undec s = foldl (\<lambda>a c. 10 * a + digit_val c) 0 s"

text \<open>
  \<^verbatim>\<open>PrepareObjectRequest\<close> (s3.cpp, lines 659-679). The stream factory's buffer is
  \<^verbatim>\<open>part.dest\<close> with \<^verbatim>\<open>part.end - part.start + 1\<close> bytes.
\<close>

definition PrepareObjectRequest :: "string \<Rightarrow> string \<Rightarrow> BufPart \<Rightarrow> GetObjectRequest" where
  "PrepareObjectRequest bucket object part =
     \<lparr> get_bucket = bucket,
       get_key = object,
       get_range = ''bytes='' @ dec (bp_start part) @ ''-'' @ dec (u64_sub (bp_end part) 1),
       get_dest = bp_dest part,
       get_length = u64 (u64_sub (bp_end part) (bp_start part) + 1) \<rparr>"

section \<open>Counting semaphore\<close>

text \<open>
  Modelled from the spec: the class \<^verbatim>\<open>internal::CountingSemaphore\<close> is not among the
  sources. The spec (3, 4.2) gives it a goal and a count of what remains: \<open>setGoal\<close>
  fails while a previous cycle is unfinished (remaining differs from the goal),
  \<open>decrementOne\<close> below zero is fatal, and \<open>waitUntilZero\<close> returns at once if the goal
  was never set or is zero and blocks while something remains.
\<close>

record CountingSemaphore =
  sema_goal :: int
  sema_remaining :: int

definition new_CountingSemaphore :: CountingSemaphore where
  "new_CountingSemaphore = \<lparr>sema_goal = 0, sema_remaining = 0\<rparr>"

definition SetGoal :: "int \<Rightarrow> CountingSemaphore \<Rightarrow> stop + CountingSemaphore" where
  "SetGoal n s =
     (if sema_remaining s \<noteq> sema_goal s then Inl AssertionFailed
      else Inr \<lparr>sema_goal = n, sema_remaining = n\<rparr>)"

definition GoalMinusOne :: "CountingSemaphore \<Rightarrow> stop + CountingSemaphore" where
  "GoalMinusOne s =
     (if sema_remaining s \<le> 0 then Inl FatalError
      else Inr (s\<lparr>sema_remaining := sema_remaining s - 1\<rparr>))"

text \<open>
  \<open>WaitGoal\<close> is called when every completion that will ever arrive has arrived: it
  returns if nothing remains and blocks forever otherwise.
\<close>

definition WaitGoal :: "CountingSemaphore \<Rightarrow> stop + unit" where
  "WaitGoal s = (if sema_remaining s \<le> 0 then Inr () else Inl BlocksForever)"

section \<open>Asynchronous download\<close>

type_synonym byte = "8 word"

text \<open>
  The SDK writes the body of a successful response into the request's stream buffer:
  at most \<open>get_length\<close> bytes, from \<open>get_dest\<close> on in the caller's buffer.
\<close>

definition write_at :: "nat \<Rightarrow> byte list \<Rightarrow> byte list \<Rightarrow> byte list" where
  "write_at dest body buf = take dest buf @ body @ drop (dest + length body) buf"

text \<open>
  \<^verbatim>\<open>internal::S3GetMultiAsync\<close> (s3.cpp, lines 681-717). The value is the requests it
  dispatches, in order, its result, and the semaphore. The callback it hands to
  \<^verbatim>\<open>GetObjectAsync\<close> runs later, once for each dispatched request: see
  \<open>run_get_callbacks\<close>.
\<close>

definition S3GetMultiAsync ::
  "bool \<Rightarrow> string \<Rightarrow> string \<Rightarrow> nat \<Rightarrow> nat \<Rightarrow> CountingSemaphore
     \<Rightarrow> GetObjectRequest list \<times> result \<times> CountingSemaphore" where
  "S3GetMultiAsync library_init bucket object start sz sema =
     (case SegmentBuf start sz of
        Inl s \<Rightarrow> ([], Inl s, sema)
      | Inr bufView \<Rightarrow>
          let parts = view_parts bufView in
          if parts = [] then ([], ResultSuccess, sema)
          else
            (case SetGoal (int (length parts)) sema of
               Inl s \<Rightarrow> ([], Inl s, sema)
             | Inr sema' \<Rightarrow>
                 if \<not> library_init then ([], Inl NullClient, sema')
                 else (map (PrepareObjectRequest bucket object) parts, ResultSuccess, sema')))"

text \<open>
  The callbacks of the dispatched requests, run in the order \<open>arrival\<close> in which the
  responses come in (indices into the dispatched requests). \<open>reply\<close> is the remote's
  answer to a request. On success the body is in the buffer and the semaphore is
  decremented; on failure the callback ends the process. An index that names no
  dispatched request has no callback.
\<close>

fun run_get_callbacks ::
  "(GetObjectRequest \<Rightarrow> byte list Outcome) \<Rightarrow> GetObjectRequest list \<Rightarrow> nat list
     \<Rightarrow> CountingSemaphore \<times> byte list \<Rightarrow> stop + (CountingSemaphore \<times> byte list)" where
  "run_get_callbacks reply reqs [] st = Inr st"
| "run_get_callbacks reply reqs (i # arrival) (sema, buf) =
     (if length reqs \<le> i then run_get_callbacks reply reqs arrival (sema, buf)
      else
        case reply (reqs ! i) of
          Failure _ \<Rightarrow> Inl FatalError
        | Success body \<Rightarrow>
            (case GoalMinusOne sema of
               Inl s \<Rightarrow> Inl s
             | Inr sema' \<Rightarrow>
                 run_get_callbacks reply reqs arrival
                   (sema', write_at (get_dest (reqs ! i)) (take (get_length (reqs ! i)) body) buf)))"

text \<open>
  The task that \<^verbatim>\<open>S3GetAsync\<close> hands to \<^verbatim>\<open>std::async\<close> (s3.cpp, lines 733-744):
  \<^verbatim>\<open>S3GetMultiAsync\<close> on a fresh semaphore, then \<^verbatim>\<open>S3GetMultiAsyncFinish\<close>, which waits
  for the semaphore. The value is the requests dispatched, the task's result and the
  destination buffer when the task is over.
\<close>

definition S3GetAsync_task ::
  "bool \<Rightarrow> (GetObjectRequest \<Rightarrow> byte list Outcome) \<Rightarrow> nat list \<Rightarrow> string \<Rightarrow> string
     \<Rightarrow> nat \<Rightarrow> nat \<Rightarrow> byte list \<Rightarrow> request list \<times> result \<times> byte list" where
  "S3GetAsync_task library_init reply arrival bucket object start sz result_buf =
     (case S3GetMultiAsync library_init bucket object start sz new_CountingSemaphore of
        (reqs, Inl s, sema) \<Rightarrow> (map GetObjectAsync reqs, Inl s, result_buf)
      | (reqs, Inr (Inl e), sema) \<Rightarrow> (map GetObjectAsync reqs, ResultError e, result_buf)
      | (reqs, Inr (Inr _), sema) \<Rightarrow>
          (case run_get_callbacks reply reqs arrival (sema, result_buf) of
             Inl s \<Rightarrow> (map GetObjectAsync reqs, Inl s, result_buf)
           | Inr (sema', buf') \<Rightarrow>
               (case WaitGoal sema' of
                  Inl s \<Rightarrow> (map GetObjectAsync reqs, Inl s, buf')
                | Inr _ \<Rightarrow> (map GetObjectAsync reqs, ResultSuccess, buf'))))"

text \<open>
  A \<^verbatim>\<open>FileAsyncWork\<close> handle, given by what waiting on its future brings about: the
  requests dispatched, the result, and what the work leaves behind (for a download,
  the destination buffer).
\<close>

datatype 'a FileAsyncWork = FileAsyncWork "request list" result 'a

text \<open>
  \<^verbatim>\<open>S3GetAsync\<close> (s3.cpp, lines 726-746). It returns a
  \<^verbatim>\<open>Result<std::unique_ptr<FileAsyncWork>>\<close>: for size zero a success that holds no
  handle, otherwise the handle of the task.
\<close>

definition S3GetAsync ::
  "bool \<Rightarrow> (GetObjectRequest \<Rightarrow> byte list Outcome) \<Rightarrow> nat list \<Rightarrow> string \<Rightarrow> string
     \<Rightarrow> nat \<Rightarrow> nat \<Rightarrow> byte list \<Rightarrow> ErrorCode + byte list FileAsyncWork option" where
  "S3GetAsync library_init reply arrival bucket object start sz result_buf =
     (if sz = 0 then Inr None
      else
        case S3GetAsync_task library_init reply arrival bucket object start sz result_buf of
          (trace, res, buf) \<Rightarrow> Inr (Some (FileAsyncWork trace res buf)))"

text \<open>
  Everything a call of \<^verbatim>\<open>S3GetAsync\<close> brings about once the caller has waited on the
  handle it got, if any: the requests dispatched and the destination buffer.
\<close>

definition requests_of :: "ErrorCode + 'a FileAsyncWork option \<Rightarrow> request list" where
  "requests_of r = (case r of Inr (Some (FileAsyncWork trace _ _)) \<Rightarrow> trace | _ \<Rightarrow> [])"

definition buffer_after ::
  "byte list \<Rightarrow> ErrorCode + byte list FileAsyncWork option \<Rightarrow> byte list" where
  "buffer_after result_buf r =
     (case r of Inr (Some (FileAsyncWork _ _ buf)) \<Rightarrow> buf | _ \<Rightarrow> result_buf)"

section \<open>Batched delete\<close>

text \<open>
  The remote's answer to a \<^verbatim>\<open>DeleteObjects\<close> request may depend on everything that was
  requested before: it is a function of the requests so far, the bucket and the keys.

  \<^verbatim>\<open>S3SendDelete\<close> (s3.cpp, lines 865-888): the request it issues and its result, or the
  failed assertion of \<^verbatim>\<open>GetS3Client()\<close>.
\<close>

definition S3SendDelete ::
  "bool \<Rightarrow> (request list \<Rightarrow> string \<Rightarrow> string list \<Rightarrow> unit Outcome) \<Rightarrow> request list
     \<Rightarrow> string list \<Rightarrow> string \<Rightarrow> stop + (request \<times> (ErrorCode + unit))" where
  "S3SendDelete library_init remote history aws_objs bucket =
     (if \<not> library_init then Inl AssertionFailed
      else
        case remote history bucket aws_objs of
          Success _ \<Rightarrow> Inr (DeleteObjects bucket aws_objs, Inr ())
        | Failure _ \<Rightarrow> Inr (DeleteObjects bucket aws_objs, Inl S3Error))"

text \<open>The local variables of \<^verbatim>\<open>S3Delete\<close>, and the requests issued so far.\<close>

record delete_state =
  aws_objs :: "string list"
  index :: nat
  res :: "ErrorCode + unit"
  trace :: "request list"

text \<open>
  Sending the collected keys: \<^verbatim>\<open>batch_res = S3SendDelete(aws_objs, bucket); if
  (!batch_res) res = batch_res;\<close>. A stop keeps the requests issued before it.
\<close>

definition send_batch ::
  "bool \<Rightarrow> (request list \<Rightarrow> string \<Rightarrow> string list \<Rightarrow> unit Outcome) \<Rightarrow> string
     \<Rightarrow> delete_state \<Rightarrow> (stop \<times> request list) + delete_state" where
  "send_batch library_init remote bucket st =
     (case S3SendDelete library_init remote (trace st) (aws_objs st) bucket of
        Inl s \<Rightarrow> Inl (s, trace st)
      | Inr (req, batch_res) \<Rightarrow>
          Inr (st\<lparr> res := (case batch_res of Inl e \<Rightarrow> Inl e | Inr _ \<Rightarrow> res st),
                   trace := trace st @ [req] \<rparr>))"

text \<open>
  The body of the loop over \<open>files\<close> (s3.cpp, lines 901-915). \<open>JoinPath\<close> is
  \<^verbatim>\<open>galois::JoinPath\<close>, which is not among the sources: a parameter.
\<close>

definition S3Delete_step ::
  "bool \<Rightarrow> (request list \<Rightarrow> string \<Rightarrow> string list \<Rightarrow> unit Outcome)
     \<Rightarrow> (string \<Rightarrow> string \<Rightarrow> string) \<Rightarrow> string \<Rightarrow> string \<Rightarrow> string
     \<Rightarrow> delete_state \<Rightarrow> (stop \<times> request list) + delete_state" where
  "S3Delete_step library_init remote JoinPath bucket object file st =
     (case (if index st \<noteq> 0 \<and> index st mod kS3MaxDelete = 0
            then (case send_batch library_init remote bucket st of
                    Inl s \<Rightarrow> Inl s
                  | Inr st' \<Rightarrow> Inr (st'\<lparr>aws_objs := []\<rparr>))
            else Inr st) of
        Inl s \<Rightarrow> Inl s
      | Inr st' \<Rightarrow>
          Inr (st'\<lparr> aws_objs := aws_objs st' @ [JoinPath object file],
                    index := index st' + 1 \<rparr>))"

fun S3Delete_loop ::
  "bool \<Rightarrow> (request list \<Rightarrow> string \<Rightarrow> string list \<Rightarrow> unit Outcome)
     \<Rightarrow> (string \<Rightarrow> string \<Rightarrow> string) \<Rightarrow> string \<Rightarrow> string \<Rightarrow> string list
     \<Rightarrow> delete_state \<Rightarrow> (stop \<times> request list) + delete_state" where
  "S3Delete_loop library_init remote JoinPath bucket object [] st = Inr st"
| "S3Delete_loop library_init remote JoinPath bucket object (file # files) st =
     (case S3Delete_step library_init remote JoinPath bucket object file st of
        Inl s \<Rightarrow> Inl s
      | Inr st' \<Rightarrow> S3Delete_loop library_init remote JoinPath bucket object files st')"

text \<open>
  \<^verbatim>\<open>S3Delete\<close> (s3.cpp, lines 890-925). \<open>files\<close> is the set in the order in which the
  loop iterates over it. The value is the requests issued and the result.
\<close>

definition S3Delete ::
  "bool \<Rightarrow> (request list \<Rightarrow> string \<Rightarrow> string list \<Rightarrow> unit Outcome)
     \<Rightarrow> (string \<Rightarrow> string \<Rightarrow> string) \<Rightarrow> string \<Rightarrow> string \<Rightarrow> string list
     \<Rightarrow> request list \<times> result" where
  "S3Delete library_init remote JoinPath bucket object files =
     (if length files = 0 then ([], ResultSuccess)
      else
        case S3Delete_loop library_init remote JoinPath bucket object files
               \<lparr>aws_objs = [], index = 0, res = Inr (), trace = []\<rparr> of
          Inl (s, t) \<Rightarrow> (t, Inl s)
        | Inr st \<Rightarrow>
            if length (aws_objs st) > 0 then
              (case send_batch library_init remote bucket st of
                 Inl (s, t) \<Rightarrow> (t, Inl s)
               | Inr st' \<Rightarrow> (trace st', Inr (res st')))
            else (trace st, Inr (res st)))"

text \<open>
  What the spec says of \<open>delete\<close>, for comparison. \<open>key_batches n xs\<close> cuts \<open>xs\<close> into
  consecutive groups of \<open>n\<close>, the last group taking what is left; \<open>send_batches\<close>
  issues one batched delete per group, whatever the earlier ones reported, and
  collects what each reported; \<open>first_error\<close> is the first error among the reports.
\<close>

fun key_batches :: "nat \<Rightarrow> 'a list \<Rightarrow> 'a list list" where
  "key_batches n xs = (if n = 0 \<or> xs = [] then [] else take n xs # key_batches n (drop n xs))"

declare key_batches.simps [simp del]

fun send_batches ::
  "(request list \<Rightarrow> string \<Rightarrow> string list \<Rightarrow> unit Outcome) \<Rightarrow> string \<Rightarrow> request list
     \<Rightarrow> string list list \<Rightarrow> request list \<times> (ErrorCode + unit) list" where
  "send_batches remote bucket history [] = (history, [])"
| "send_batches remote bucket history (b # bs) =
     (case send_batches remote bucket (history @ [DeleteObjects bucket b]) bs of
        (h, rs) \<Rightarrow>
          (h, (case remote history bucket b of Success _ \<Rightarrow> Inr () | Failure _ \<Rightarrow> Inl S3Error) # rs))"

fun first_error :: "(ErrorCode + unit) list \<Rightarrow> ErrorCode + unit" where
  "first_error [] = Inr ()"
| "first_error (Inl e # rs) = Inl e"
| "first_error (Inr _ # rs) = first_error rs"

text \<open>
  The rest of \<^verbatim>\<open>S3Delete\<close> from a state of its loop: the remaining iterations, then the
  last batch (s3.cpp, lines 917-924).
\<close>

definition S3Delete_finish ::
  "bool \<Rightarrow> (request list \<Rightarrow> string \<Rightarrow> string list \<Rightarrow> unit Outcome) \<Rightarrow> string
     \<Rightarrow> delete_state \<Rightarrow> request list \<times> result" where
  "S3Delete_finish library_init remote bucket st =
     (if length (aws_objs st) > 0 then
        (case send_batch library_init remote bucket st of
           Inl (s, t) \<Rightarrow> (t, Inl s)
         | Inr st' \<Rightarrow> (trace st', Inr (res st')))
      else (trace st, Inr (res st)))"

definition S3Delete_from ::
  "bool \<Rightarrow> (request list \<Rightarrow> string \<Rightarrow> string list \<Rightarrow> unit Outcome)
     \<Rightarrow> (string \<Rightarrow> string \<Rightarrow> string) \<Rightarrow> string \<Rightarrow> string \<Rightarrow> string list
     \<Rightarrow> delete_state \<Rightarrow> request list \<times> result" where
  "S3Delete_from library_init remote JoinPath bucket object files st =
     (case S3Delete_loop library_init remote JoinPath bucket object files st of
        Inl (s, t) \<Rightarrow> (t, Inl s)
      | Inr st' \<Rightarrow> S3Delete_finish library_init remote bucket st')"

text \<open>The result variable after a sequence of reports: the last error wins.\<close>

fun remember :: "ErrorCode + unit \<Rightarrow> (ErrorCode + unit) list \<Rightarrow> ErrorCode + unit" where
  "remember r [] = r"
| "remember r (Inl e # rs) = remember (Inl e) rs"
| "remember r (Inr _ # rs) = remember r rs"

section \<open>Uploads\<close>

text \<open>
  The remote's part in one upload: its answers to \<^verbatim>\<open>PutObject\<close>, to
  \<^verbatim>\<open>CreateMultipartUpload\<close> (the upload id), to the \<^verbatim>\<open>UploadPart\<close> of the part with
  index \<open>i\<close>, counted from 0 as the callback captures it (the ETag), and to
  \<^verbatim>\<open>CompleteMultipartUpload\<close>; and the order in which the part uploads complete, as
  the list of their indices. The SDK runs the callback of every dispatched request
  once: \<open>env_arrival\<close> is a permutation of the indices of the parts.
\<close>

record put_env =
  env_put :: "unit Outcome"
  env_create :: "string Outcome"
  env_part :: "nat \<Rightarrow> string Outcome"
  env_arrival :: "nat list"
  env_complete :: "unit Outcome"

text \<open>\<^verbatim>\<open>internal::S3PutSingleSync\<close> (s3.cpp, lines 261-291).\<close>

definition S3PutSingleSync ::
  "bool \<Rightarrow> put_env \<Rightarrow> string \<Rightarrow> string \<Rightarrow> nat \<Rightarrow> request list \<times> result" where
  "S3PutSingleSync library_init env bucket object sz =
     (if \<not> library_init then ([], Inl AssertionFailed)
      else
        ([PutObject bucket object sz],
         (case env_put env of Success _ \<Rightarrow> ResultSuccess | Failure _ \<Rightarrow> ResultError S3Error)))"

text \<open>
  The \<^verbatim>\<open>UploadPartAsync\<close> requests of the loops over the parts (s3.cpp, lines 339-386
  and 481-523): part number \<open>i + 1\<close>, body \<^verbatim>\<open>part.dest\<close> of length
  \<^verbatim>\<open>part.end - part.start\<close>.
\<close>

definition upload_part_requests ::
  "string \<Rightarrow> string \<Rightarrow> string \<Rightarrow> BufPart list \<Rightarrow> request list" where
  "upload_part_requests bucket object upload_id parts =
     map (\<lambda>i. UploadPartAsync bucket object upload_id (i + 1) (bp_dest (parts ! i))
                (u64_sub (bp_end (parts ! i)) (bp_start (parts ! i))))
       [0..<length parts]"

text \<open>
  The loops that build the completion manifest (s3.cpp, lines 394-399 and 536-541):
  part number \<open>i + 1\<close> with \<^verbatim>\<open>part_e_tags[i]\<close>, for \<open>i\<close> from 0 up.
\<close>

definition completed_parts :: "string list \<Rightarrow> (nat \<times> string) list" where
  "completed_parts part_e_tags =
     map (\<lambda>i. (i + 1, part_e_tags ! i)) [0..<length part_e_tags]"

text \<open>
  The callbacks of \<^verbatim>\<open>S3UploadOverwrite\<close> (s3.cpp, lines 356-383), run in the order in
  which the uploads complete, on \<^verbatim>\<open>part_e_tags\<close> and \<^verbatim>\<open>finished\<close>. A failed upload
  ends the process. An index that names no part has no callback.
\<close>

fun upload_callbacks ::
  "(nat \<Rightarrow> string Outcome) \<Rightarrow> nat list \<Rightarrow> string list \<times> nat \<Rightarrow> stop + (string list \<times> nat)" where
  "upload_callbacks part_outcome [] st = Inr st"
| "upload_callbacks part_outcome (i # order) (part_e_tags, finished) =
     (if length part_e_tags \<le> i then upload_callbacks part_outcome order (part_e_tags, finished)
      else
        case part_outcome i of
          Success etag \<Rightarrow>
            upload_callbacks part_outcome order (part_e_tags[i := etag], finished + 1)
        | Failure _ \<Rightarrow> Inl FatalError)"

text \<open>
  \<^verbatim>\<open>S3UploadOverwrite\<close> (s3.cpp, lines 293-419): the requests it issues and its result.
  The callbacks are run after the loop that dispatches the uploads; the wait for
  \<^verbatim>\<open>finished >= parts.size()\<close> that follows never ends if fewer completions arrive.
\<close>

definition S3UploadOverwrite ::
  "bool \<Rightarrow> put_env \<Rightarrow> string \<Rightarrow> string \<Rightarrow> nat \<Rightarrow> request list \<times> result" where
  "S3UploadOverwrite library_init env bucket object sz =
     (if sz < kS3DefaultBufSize then S3PutSingleSync library_init env bucket object sz
      else if \<not> library_init then ([], Inl AssertionFailed)
      else
        case CheckS3Error (env_create env) of
          Inl e \<Rightarrow> ([CreateMultipartUpload bucket object], ResultError e)
        | Inr _ \<Rightarrow>
            let upload_id = (case env_create env of Success uid \<Rightarrow> uid | Failure _ \<Rightarrow> []) in
            (case SegmentBuf 0 sz of
               Inl s \<Rightarrow> ([CreateMultipartUpload bucket object], Inl s)
             | Inr bufView \<Rightarrow>
                 let parts = view_parts bufView in
                 if parts = [] then ([CreateMultipartUpload bucket object], Inl AssertionFailed)
                 else
                   let dispatched = CreateMultipartUpload bucket object
                         # upload_part_requests bucket object upload_id parts in
                   (case upload_callbacks (env_part env) (env_arrival env)
                           (replicate (length parts) [], 0) of
                      Inl s \<Rightarrow> (dispatched, Inl s)
                    | Inr (part_e_tags, finished) \<Rightarrow>
                        if \<not> length parts \<le> finished then (dispatched, Inl BlocksForever)
                        else
                          (dispatched
                             @ [CompleteMultipartUpload bucket object upload_id
                                  (completed_parts part_e_tags)],
                           (case env_complete env of
                              Success _ \<Rightarrow> ResultSuccess
                            | Failure _ \<Rightarrow> ResultError S3Error)))))"

text \<open>\<^verbatim>\<open>internal::PutMultiImpl\<close> (s3.cpp, lines 192-201), without its futures.\<close>

record PutMultiImpl =
  pm_parts :: "BufPart list"
  pm_part_e_tags :: "string list"
  pm_sema :: CountingSemaphore
  pm_upload_id :: string

text \<open>
  \<^verbatim>\<open>internal::S3PutMultiAsync1\<close> (s3.cpp, lines 421-453): the request it issues and the
  session object it creates.
\<close>

definition S3PutMultiAsync1 ::
  "bool \<Rightarrow> string \<Rightarrow> string \<Rightarrow> nat \<Rightarrow> request list \<times> (stop + PutMultiImpl)" where
  "S3PutMultiAsync1 library_init bucket object sz =
     (if \<not> library_init then ([], Inl AssertionFailed)
      else if \<not> sz > 0 then ([], Inl AssertionFailed)
      else
        case SegmentBuf 0 sz of
          Inl s \<Rightarrow> ([], Inl s)
        | Inr bufView \<Rightarrow>
            (case SetGoal (int (length (view_parts bufView))) new_CountingSemaphore of
               Inl s \<Rightarrow> ([], Inl s)
             | Inr sema \<Rightarrow>
                 ([CreateMultipartUploadCallable bucket object],
                  Inr \<lparr> pm_parts = view_parts bufView,
                        pm_part_e_tags = replicate (NumSegments bufView) [],
                        pm_sema = sema,
                        pm_upload_id = [] \<rparr>)))"

text \<open>
  \<^verbatim>\<open>internal::S3PutMultiAsync2\<close> (s3.cpp, lines 455-526): the requests it dispatches,
  its result and the session object.
\<close>

definition S3PutMultiAsync2 ::
  "put_env \<Rightarrow> string \<Rightarrow> string \<Rightarrow> PutMultiImpl
     \<Rightarrow> request list \<times> (ErrorCode + unit) \<times> PutMultiImpl" where
  "S3PutMultiAsync2 env bucket object pmh =
     (case env_create env of
        Failure _ \<Rightarrow> ([], Inl S3Error, pmh)
      | Success uid \<Rightarrow>
          (upload_part_requests bucket object uid (pm_parts pmh), Inr (),
           pmh\<lparr>pm_upload_id := uid\<rparr>))"

text \<open>
  The callbacks of \<^verbatim>\<open>S3PutMultiAsync2\<close> (s3.cpp, lines 500-521), run in the order in
  which the uploads complete.
\<close>

fun async_upload_callbacks ::
  "(nat \<Rightarrow> string Outcome) \<Rightarrow> nat list \<Rightarrow> PutMultiImpl \<Rightarrow> stop + PutMultiImpl" where
  "async_upload_callbacks part_outcome [] pmh = Inr pmh"
| "async_upload_callbacks part_outcome (i # order) pmh =
     (if length (pm_parts pmh) \<le> i then async_upload_callbacks part_outcome order pmh
      else
        case part_outcome i of
          Success etag \<Rightarrow>
            (case GoalMinusOne (pm_sema pmh) of
               Inl s \<Rightarrow> Inl s
             | Inr sema \<Rightarrow>
                 async_upload_callbacks part_outcome order
                   (pmh\<lparr>pm_part_e_tags := (pm_part_e_tags pmh)[i := etag], pm_sema := sema\<rparr>))
        | Failure _ \<Rightarrow> Inl FatalError)"

text \<open>
  \<^verbatim>\<open>internal::S3PutMultiAsync3\<close> (s3.cpp, lines 528-553): it waits for the semaphore and
  issues the completion request.
\<close>

definition S3PutMultiAsync3 ::
  "string \<Rightarrow> string \<Rightarrow> PutMultiImpl \<Rightarrow> request list \<times> result" where
  "S3PutMultiAsync3 bucket object pmh =
     (case WaitGoal (pm_sema pmh) of
        Inl s \<Rightarrow> ([], Inl s)
      | Inr _ \<Rightarrow>
          ([CompleteMultipartUploadCallable bucket object (pm_upload_id pmh)
              (completed_parts (pm_part_e_tags pmh))],
           ResultSuccess))"

text \<open>\<^verbatim>\<open>internal::S3PutMultiAsyncFinish\<close> (s3.cpp, lines 555-573).\<close>

definition S3PutMultiAsyncFinish :: "put_env \<Rightarrow> ErrorCode + unit" where
  "S3PutMultiAsyncFinish env =
     (case env_complete env of Success _ \<Rightarrow> Inr () | Failure _ \<Rightarrow> Inl S3Error)"

text \<open>
  \<^verbatim>\<open>internal::S3PutSingleAsync\<close> and \<^verbatim>\<open>internal::S3PutSingleAsyncFinish\<close> (s3.cpp, lines
  575-620) on a fresh semaphore, as the task of \<^verbatim>\<open>S3PutAsync\<close> calls them: the put is
  dispatched, its callback decrements the semaphore or ends the process, and the
  finish waits for the semaphore.
\<close>

definition S3PutSingleAsync_and_Finish ::
  "bool \<Rightarrow> put_env \<Rightarrow> string \<Rightarrow> string \<Rightarrow> nat \<Rightarrow> request list \<times> result" where
  "S3PutSingleAsync_and_Finish library_init env bucket object sz =
     (if \<not> library_init then ([], Inl AssertionFailed)
      else
        case SetGoal 1 new_CountingSemaphore of
          Inl s \<Rightarrow> ([], Inl s)
        | Inr sema \<Rightarrow>
            (case env_put env of
               Failure _ \<Rightarrow> ([PutObjectAsync bucket object sz], Inl FatalError)
             | Success _ \<Rightarrow>
                 (case GoalMinusOne sema of
                    Inl s \<Rightarrow> ([PutObjectAsync bucket object sz], Inl s)
                  | Inr sema' \<Rightarrow>
                      (case WaitGoal sema' of
                         Inl s \<Rightarrow> ([PutObjectAsync bucket object sz], Inl s)
                       | Inr _ \<Rightarrow> ([PutObjectAsync bucket object sz], ResultSuccess)))))"

text \<open>
  The task that \<^verbatim>\<open>S3PutAsync\<close> hands to \<^verbatim>\<open>std::async\<close> (s3.cpp, lines 626-656): below
  the threshold the single asynchronous put, otherwise the four phases of the
  multipart upload, each error returned at once.
\<close>

definition S3PutAsync_task ::
  "bool \<Rightarrow> put_env \<Rightarrow> string \<Rightarrow> string \<Rightarrow> nat \<Rightarrow> request list \<times> result" where
  "S3PutAsync_task library_init env bucket object sz =
     (if sz < kS3DefaultBufSize then S3PutSingleAsync_and_Finish library_init env bucket object sz
      else
        case S3PutMultiAsync1 library_init bucket object sz of
          (t1, Inl s) \<Rightarrow> (t1, Inl s)
        | (t1, Inr pm) \<Rightarrow>
            (case S3PutMultiAsync2 env bucket object pm of
               (t2, Inl e, pm2) \<Rightarrow> (t1 @ t2, ResultError e)
             | (t2, Inr _, pm2) \<Rightarrow>
                 (case async_upload_callbacks (env_part env) (env_arrival env) pm2 of
                    Inl s \<Rightarrow> (t1 @ t2, Inl s)
                  | Inr pm3 \<Rightarrow>
                      (case S3PutMultiAsync3 bucket object pm3 of
                         (t3, Inl s) \<Rightarrow> (t1 @ t2 @ t3, Inl s)
                       | (t3, Inr (Inl e)) \<Rightarrow> (t1 @ t2 @ t3, ResultError e)
                       | (t3, Inr (Inr _)) \<Rightarrow>
                           (t1 @ t2 @ t3,
                            (case S3PutMultiAsyncFinish env of
                               Inl e \<Rightarrow> ResultError e
                             | Inr _ \<Rightarrow> ResultSuccess))))))"

text \<open>\<^verbatim>\<open>S3PutAsync\<close> (s3.cpp, lines 622-657): it always returns the handle of its task.\<close>

definition S3PutAsync ::
  "bool \<Rightarrow> put_env \<Rightarrow> string \<Rightarrow> string \<Rightarrow> nat \<Rightarrow> ErrorCode + unit FileAsyncWork option" where
  "S3PutAsync library_init env bucket object sz =
     (case S3PutAsync_task library_init env bucket object sz of
        (reqs, rslt) \<Rightarrow> Inr (Some (FileAsyncWork reqs rslt ())))"


fun is_completion_request :: "request \<Rightarrow> bool" where
  "is_completion_request (CompleteMultipartUpload _ _ _ _) = True"
| "is_completion_request (CompleteMultipartUploadCallable _ _ _ _) = True"
| "is_completion_request _ = False"

section \<open>Listing\<close>

text \<open>
  What the sources read of a \<^verbatim>\<open>ListObjectsV2\<close> result: the keys of its contents, whether
  it is truncated, and the next continuation token.
\<close>

record list_page =
  contents :: "string list"
  is_truncated :: bool
  next_token :: string

text \<open>
  \<^verbatim>\<open>std::string::find\<close>: the first position at which \<open>pat\<close> occurs in \<open>s\<close>, if any.
\<close>

fun find_str :: "string \<Rightarrow> string \<Rightarrow> nat option" where
  "find_str [] pat = (if pat = [] then Some 0 else None)"
| "find_str (c # cs) pat =
     (if prefix pat (c # cs) then Some 0 else map_option Suc (find_str cs pat))"

text \<open>
  \<^verbatim>\<open>operator[]\<close> of \<^verbatim>\<open>std::string\<close>: the character at a position below the length, and
  the null character at the length itself.
\<close>

definition char_at :: "string \<Rightarrow> nat \<Rightarrow> char" where
  "char_at s i = (if i < length s then s ! i else CHR 0x00)"

text \<open>
  The loop over the contents of one result (s3.cpp, lines 844-851): for each key the
  two assertions, then the key without its first \<^verbatim>\<open>object.length() + 1\<close> characters
  goes into the caller's set.
\<close>

fun add_names :: "string \<Rightarrow> string list \<Rightarrow> string set \<Rightarrow> stop + string set" where
  "add_names object [] lst = Inr lst"
| "add_names object (key # keys) lst =
     (if find_str key object \<noteq> Some 0 then Inl AssertionFailed
      else if char_at key (length object) \<noteq> CHR ''/'' then Inl AssertionFailed
      else add_names object keys (insert (drop (length object + 1) key) lst))"

text \<open>The continuation token of a request: set only if the token is not empty.\<close>

definition tok_of :: "string \<Rightarrow> string option" where
  "tok_of token = (if length token > 0 then Some token else None)"

text \<open>
  The \<^verbatim>\<open>do ... while (token.size() > 0)\<close> loop of the task of \<^verbatim>\<open>S3ListAsync\<close> (s3.cpp,
  lines 831-859), with fuel: one unit for each iteration, \<open>None\<close> when it runs out.
  \<open>remote\<close> is the remote's answer to a listing of a bucket and prefix with a token.
  The value is the requests issued and either a stop or the caller's set at the end.
\<close>

fun S3List_loop ::
  "nat \<Rightarrow> (string \<Rightarrow> string \<Rightarrow> string option \<Rightarrow> list_page Outcome) \<Rightarrow> string \<Rightarrow> string
     \<Rightarrow> string \<Rightarrow> string set \<Rightarrow> request list \<Rightarrow> (request list \<times> (stop + string set)) option" where
  "S3List_loop 0 remote bucket object token lst reqs = None"
| "S3List_loop (Suc fuel) remote bucket object token lst reqs =
     (case remote bucket object (tok_of token) of
        Failure _ \<Rightarrow> Some (reqs @ [ListObjectsV2 bucket object (tok_of token)], Inl FatalError)
      | Success s3result \<Rightarrow>
          (case add_names object (contents s3result) lst of
             Inl s \<Rightarrow> Some (reqs @ [ListObjectsV2 bucket object (tok_of token)], Inl s)
           | Inr lst' \<Rightarrow>
               if is_truncated s3result then
                 (if \<not> length (next_token s3result) > 0
                  then Some (reqs @ [ListObjectsV2 bucket object (tok_of token)],
                             Inl AssertionFailed)
                  else S3List_loop fuel remote bucket object (next_token s3result) lst'
                         (reqs @ [ListObjectsV2 bucket object (tok_of token)]))
               else Some (reqs @ [ListObjectsV2 bucket object (tok_of token)], Inr lst')))"

text \<open>
  \<^verbatim>\<open>S3ListAsync\<close> (s3.cpp, lines 819-863) together with waiting for the handle it
  returns: the assertion on \<^verbatim>\<open>library_init\<close>, then the task.
\<close>

definition S3ListAsync ::
  "bool \<Rightarrow> nat \<Rightarrow> (string \<Rightarrow> string \<Rightarrow> string option \<Rightarrow> list_page Outcome) \<Rightarrow> string \<Rightarrow> string
     \<Rightarrow> string set \<Rightarrow> (request list \<times> (stop + string set)) option" where
  "S3ListAsync library_init fuel remote bucket object lst =
     (if \<not> library_init then Some ([], Inl AssertionFailed)
      else S3List_loop fuel remote bucket object [] lst [])"

text \<open>
  For the statements about listings. A key is relative to the prefix if it begins
  with the prefix and a slash; its name is what follows. \<open>walk\<close>: the pages are the
  remote's answers to successive requests, the first with the given token and each
  further one with the token of the page before, which is marked truncated and has a
  non-empty token.
\<close>

definition under_prefix :: "string \<Rightarrow> string \<Rightarrow> bool" where
  "under_prefix object key = prefix (object @ ''/'') key"

definition names_of :: "string \<Rightarrow> list_page list \<Rightarrow> string set" where
  "names_of object pages =
     (\<Union>q \<in> set pages. (\<lambda>key. drop (length object + 1) key) ` set (contents q))"

fun walk ::
  "(string \<Rightarrow> string \<Rightarrow> string option \<Rightarrow> list_page Outcome) \<Rightarrow> string \<Rightarrow> string
     \<Rightarrow> string option \<Rightarrow> list_page list \<Rightarrow> bool" where
  "walk remote bucket object tok [] = True"
| "walk remote bucket object tok [p] = (remote bucket object tok = Success p)"
| "walk remote bucket object tok (p # q # ps) =
     (remote bucket object tok = Success p \<and> is_truncated p \<and> next_token p \<noteq> []
      \<and> walk remote bucket object (Some (next_token p)) (q # ps))"

text \<open>The tokens of the requests that fetch the pages of a walk.\<close>

definition request_tokens :: "string option \<Rightarrow> list_page list \<Rightarrow> string option list" where
  "request_tokens tok pages = tok # map (\<lambda>q. Some (next_token q)) pages"

text \<open>
  The rest of an iteration of the loop once the result \<open>s3result\<close> is there (s3.cpp,
  lines 843-859); \<open>reqs\<close> includes the request of this iteration.
\<close>

definition page_step ::
  "nat \<Rightarrow> (string \<Rightarrow> string \<Rightarrow> string option \<Rightarrow> list_page Outcome) \<Rightarrow> string \<Rightarrow> string
     \<Rightarrow> list_page \<Rightarrow> string set \<Rightarrow> request list \<Rightarrow> (request list \<times> (stop + string set)) option" where
  "page_step fuel remote bucket object s3result lst reqs =
     (case add_names object (contents s3result) lst of
        Inl s \<Rightarrow> Some (reqs, Inl s)
      | Inr lst' \<Rightarrow>
          if is_truncated s3result then
            (if \<not> length (next_token s3result) > 0 then Some (reqs, Inl AssertionFailed)
             else S3List_loop fuel remote bucket object (next_token s3result) lst' reqs)
          else Some (reqs, Inr lst'))"

section \<open>Groups of asynchronous operations\<close>

text \<open>
  Modelled from the spec: the class \<^verbatim>\<open>AsyncOpGroup\<close>, to which \<^verbatim>\<open>ReadGroup\<close> hands
  \<^verbatim>\<open>AddOp\<close> and \<^verbatim>\<open>Finish\<close>, is not among the sources; the header of \<^verbatim>\<open>ReadGroup\<close> only
  declares the two and promises that \<^verbatim>\<open>on_complete\<close> is called in FIFO order. The spec
  (3, 4.4, 7) says: an operation is a label, a future of a result and a continuation;
  the group owns a queue of them; \<open>finish\<close> takes the entries in the order of their
  registration, blocks until the entry's future resolves, then invokes its
  continuation; an error is noted and the draining goes on; the first error
  encountered is reported.

  Futures are numbered. \<open>result_of\<close> gives what a future resolves to and \<open>schedule\<close>
  the order in which the futures resolve as time goes by. A continuation works on a
  state of its caller and returns a result, as its type in the header says; an error
  it returns is an error encountered as well.
\<close>

record 'st TrackedOperation =
  op_label :: string
  op_future :: nat
  op_on_complete :: "'st \<Rightarrow> (ErrorCode + unit) \<times> 'st"

record 'st OpGroup =
  pending :: "'st TrackedOperation list"

definition AddOp :: "nat \<Rightarrow> string \<Rightarrow> ('st \<Rightarrow> (ErrorCode + unit) \<times> 'st) \<Rightarrow> 'st OpGroup \<Rightarrow> 'st OpGroup" where
  "AddOp fut label on_complete grp =
     grp\<lparr>pending := pending grp
              @ [\<lparr>op_label = label, op_future = fut, op_on_complete = on_complete\<rparr>]\<rparr>"

text \<open>What is seen while a group is drained.\<close>

datatype event = Resolved nat | Invoked string

fun is_invoked :: "event \<Rightarrow> bool" where
  "is_invoked (Invoked _) = True"
| "is_invoked (Resolved _) = False"

text \<open>
  Blocking until the future \<open>f\<close> has resolved: time goes by, futures resolve in the
  order of the schedule, until \<open>f\<close> is among the resolved ones. The value is the
  futures that resolved meanwhile and the rest of the schedule; \<open>None\<close> if \<open>f\<close> never
  resolves.
\<close>

fun await :: "nat \<Rightarrow> nat list \<Rightarrow> nat set \<Rightarrow> (nat list \<times> nat list) option" where
  "await f [] resolved = (if f \<in> resolved then Some ([], []) else None)"
| "await f (g # schedule) resolved =
     (if f \<in> resolved then Some ([], g # schedule)
      else map_option (\<lambda>(seen, rest). (g # seen, rest)) (await f schedule (insert g resolved)))"

text \<open>The first error stays; a later report changes nothing once there is one.\<close>

definition note_error :: "ErrorCode + unit \<Rightarrow> ErrorCode + unit \<Rightarrow> ErrorCode + unit" where
  "note_error first r = (case first of Inl e \<Rightarrow> Inl e | Inr _ \<Rightarrow> r)"

record 'st drain_state =
  d_schedule :: "nat list"
  d_resolved :: "nat set"
  d_first_error :: "ErrorCode + unit"
  d_events :: "event list"
  d_state :: 'st

fun drain ::
  "(nat \<Rightarrow> ErrorCode + unit) \<Rightarrow> 'st TrackedOperation list \<Rightarrow> 'st drain_state
     \<Rightarrow> stop + 'st drain_state" where
  "drain result_of [] d = Inr d"
| "drain result_of (entry # queue) d =
     (case await (op_future entry) (d_schedule d) (d_resolved d) of
        None \<Rightarrow> Inl BlocksForever
      | Some (seen, rest) \<Rightarrow>
          (case op_on_complete entry (d_state d) of
             (c, st') \<Rightarrow>
               drain result_of queue
                 \<lparr> d_schedule = rest,
                   d_resolved = d_resolved d \<union> set seen,
                   d_first_error =
                     note_error (note_error (d_first_error d) (result_of (op_future entry))) c,
                   d_events = d_events d @ map Resolved seen @ [Invoked (op_label entry)],
                   d_state = st' \<rparr>))"

text \<open>
  \<open>finish\<close>: the result reported, the events seen, the caller's state afterwards and
  the group, its queue drained.
\<close>

definition Finish ::
  "(nat \<Rightarrow> ErrorCode + unit) \<Rightarrow> nat list \<Rightarrow> 'st OpGroup \<Rightarrow> 'st
     \<Rightarrow> stop + ((ErrorCode + unit) \<times> event list \<times> 'st \<times> 'st OpGroup)" where
  "Finish result_of schedule grp st =
     (case drain result_of (pending grp)
             \<lparr> d_schedule = schedule, d_resolved = {}, d_first_error = Inr (),
               d_events = [], d_state = st \<rparr> of
        Inl s \<Rightarrow> Inl s
      | Inr d \<Rightarrow> Inr (d_first_error d, d_events d, d_state d, grp\<lparr>pending := []\<rparr>))"

text \<open>
  For the statement: the continuations run one after the other in the order of the
  list, and the reports in the order in which \<open>finish\<close> meets them, for each entry
  what its future resolved to and then what its continuation returned.
\<close>

fun reports_in_order ::
  "(nat \<Rightarrow> ErrorCode + unit) \<Rightarrow> 'st TrackedOperation list \<Rightarrow> 'st
     \<Rightarrow> (ErrorCode + unit) list \<times> 'st" where
  "reports_in_order result_of [] st = ([], st)"
| "reports_in_order result_of (entry # queue) st =
     (case op_on_complete entry st of
        (c, st') \<Rightarrow>
          (case reports_in_order result_of queue st' of
             (rs, st'') \<Rightarrow> (result_of (op_future entry) # c # rs, st'')))"

chapter \<open>Properties\<close>

section \<open>Segmenting a buffer\<close>

lemma NumSegments_less_iff:
  assumes "0 < view_segment_size v"
  shows "i < NumSegments v \<longleftrightarrow> i * view_segment_size v < view_size v"
proof -
  let ?g = "view_segment_size v" and ?z = "view_size v"
  have "i < (?z + ?g - 1) div ?g \<longleftrightarrow> \<not> ((?z + ?g - 1) div ?g < Suc i)" by auto
  also have "\<dots> \<longleftrightarrow> \<not> (?z + ?g - 1 < Suc i * ?g)"
    using assms by (simp only: div_less_iff_less_mult)
  also have "\<dots> \<longleftrightarrow> i * ?g < ?z" using assms by auto
  finally show ?thesis by (simp add: NumSegments_def)
qed

lemma length_view_parts: "length (view_parts v) = NumSegments v"
  by (simp add: view_parts_def)

lemma chained_parts_from:
  assumes seg: "0 < view_segment_size v"
    and nowrap: "view_start v + view_size v < 2 ^ 64"
  shows "k \<le> NumSegments v \<Longrightarrow>
         chained (view_start v + min (k * view_segment_size v) (view_size v))
           (map (GetPart v) [k..<NumSegments v]) (view_start v + view_size v)"
proof (induction "NumSegments v - k" arbitrary: k)
  case 0
  then have "k = NumSegments v" by simp
  then have "\<not> k * view_segment_size v < view_size v"
    using NumSegments_less_iff [OF seg, of k] by simp
  then show ?case using \<open>k = NumSegments v\<close> by (simp add: min_def)
next
  case (Suc d)
  then have lt: "k < NumSegments v" by simp
  then have klt: "k * view_segment_size v < view_size v"
    using NumSegments_less_iff [OF seg] by simp
  have upt: "[k..<NumSegments v] = k # [Suc k..<NumSegments v]"
    using lt by (simp add: upt_conv_Cons)
  have IH: "chained (view_start v + min (Suc k * view_segment_size v) (view_size v))
           (map (GetPart v) [Suc k..<NumSegments v]) (view_start v + view_size v)"
    using Suc lt by (intro Suc.hyps) auto
  have s: "bp_start (GetPart v k) = view_start v + k * view_segment_size v"
    using klt nowrap by (simp add: GetPart_def u64_def)
  have e: "bp_end (GetPart v k) = view_start v + min (Suc k * view_segment_size v) (view_size v)"
    using nowrap by (simp add: GetPart_def u64_def min_def)
  show ?case
    using IH s e klt seg by (simp add: upt min_def)
qed

lemma chained_le: "chained a ps b \<Longrightarrow> a \<le> b"
proof (induction ps arbitrary: a)
  case Nil
  then show ?case by simp
next
  case (Cons q qs)
  then have "bp_end q \<le> b" and "a < bp_end q" by simp_all
  then show ?case by simp
qed

lemma chained_nonempty_parts: "chained a ps b \<Longrightarrow> p \<in> set ps \<Longrightarrow> bp_start p < bp_end p"
  by (induction ps arbitrary: a) auto

lemma chained_within: "chained a ps b \<Longrightarrow> p \<in> set ps \<Longrightarrow> a \<le> bp_start p \<and> bp_end p \<le> b"
proof (induction ps arbitrary: a)
  case Nil
  then show ?case by simp
next
  case (Cons q qs)
  have tl: "chained (bp_end q) qs b" and hd: "bp_start q = a" "a < bp_end q"
    using Cons.prems(1) by simp_all
  show ?case
  proof (cases "p = q")
    case True
    then show ?thesis using hd chained_le [OF tl] by simp
  next
    case False
    then have "p \<in> set qs" using Cons.prems(2) by simp
    then have "bp_end q \<le> bp_start p \<and> bp_end p \<le> b"
      using Cons.IH [OF tl] by simp
    then show ?thesis using hd by simp
  qed
qed

lemma chained_sum: "chained a ps b \<Longrightarrow> sum_list (map part_len ps) = b - a"
proof (induction ps arbitrary: a)
  case Nil
  then show ?case by simp
next
  case (Cons q qs)
  have tl: "chained (bp_end q) qs b" and hd: "bp_start q = a" "a < bp_end q"
    using Cons.prems(1) by simp_all
  have "sum_list (map part_len qs) = b - bp_end q" using Cons.IH [OF tl] .
  moreover have "bp_end q \<le> b" using chained_le [OF tl] .
  moreover have "part_len q = bp_end q - a" using hd by (simp add: part_len_def)
  ultimately show ?case using hd by simp
qed

lemma chained_hd_last:
  "chained a ps b \<Longrightarrow> ps \<noteq> [] \<Longrightarrow> bp_start (hd ps) = a \<and> bp_end (last ps) = b"
proof (induction ps arbitrary: a)
  case Nil
  then show ?case by simp
next
  case (Cons q qs)
  have tl: "chained (bp_end q) qs b" and hd: "bp_start q = a"
    using Cons.prems(1) by simp_all
  show ?case
  proof (cases "qs = []")
    case True
    then show ?thesis using tl hd by simp
  next
    case False
    then show ?thesis using Cons.IH [OF tl False] hd by simp
  qed
qed

lemma chained_adjacent:
  "chained a ps b \<Longrightarrow> Suc i < length ps \<Longrightarrow> bp_end (ps ! i) = bp_start (ps ! Suc i)"
proof (induction ps arbitrary: a i)
  case Nil
  then show ?case by simp
next
  case (Cons q qs)
  have tl: "chained (bp_end q) qs b" using Cons.prems(1) by simp
  show ?case
  proof (cases i)
    case 0
    then have "qs \<noteq> []" using Cons.prems(2) by auto
    then show ?thesis using chained_hd_last [OF tl] 0 by (simp add: hd_conv_nth)
  next
    case (Suc j)
    then have "Suc j < length qs" using Cons.prems(2) by simp
    then show ?thesis using Cons.IH [OF tl] Suc by simp
  qed
qed

lemma chained_disjoint:
  "chained a ps b \<Longrightarrow> i < j \<Longrightarrow> j < length ps \<Longrightarrow> bp_end (ps ! i) \<le> bp_start (ps ! j)"
proof (induction ps arbitrary: a i j)
  case Nil
  then show ?case by simp
next
  case (Cons q qs)
  have tl: "chained (bp_end q) qs b" using Cons.prems(1) by simp
  obtain j' where j: "j = Suc j'" using Cons.prems(2) by (cases j) auto
  then have j': "j' < length qs" using Cons.prems(3) by simp
  show ?case
  proof (cases i)
    case 0
    have "qs ! j' \<in> set qs" using j' by simp
    then have "bp_end q \<le> bp_start (qs ! j')"
      using chained_within [OF tl] by simp
    then show ?thesis using 0 j by simp
  next
    case (Suc i')
    then have "i' < j'" using Cons.prems(2) j by simp
    then show ?thesis using Cons.IH [OF tl _ j'] Suc j by simp
  qed
qed

lemma view_parts_chained:
  assumes "0 < view_segment_size v" and "view_start v + view_size v < 2 ^ 64"
  shows "chained (view_start v) (view_parts v) (view_start v + view_size v)"
  using chained_parts_from [OF assms, of 0] by (simp add: view_parts_def)

lemma view_parts_nonempty:
  assumes "0 < view_segment_size v" and "0 < view_size v"
  shows "view_parts v \<noteq> []"
  using NumSegments_less_iff [OF assms(1), of 0] assms(2) by (simp add: view_parts_def)

lemma view_parts_empty: "view_size v = 0 \<Longrightarrow> view_parts v = []"
  by (cases "view_segment_size v = 0") (simp_all add: view_parts_def NumSegments_def)

lemma SegmentBuf_view:
  assumes "SegmentBuf start sz = Inr v"
  shows "view_start v = start \<and> view_size v = sz \<and> 0 < view_segment_size v"
  using assms
  by (auto simp: SegmentBuf_def Let_def kS3DefaultBufSize_def MB_def split: if_splits)

lemma view_parts_example:
  "view_parts \<lparr>view_start = 5, view_size = 10, view_segment_size = 4\<rparr> =
    [\<lparr>bp_start = 5, bp_end = 9, bp_dest = 0\<rparr>, \<lparr>bp_start = 9, bp_end = 13, bp_dest = 4\<rparr>,
     \<lparr>bp_start = 13, bp_end = 15, bp_dest = 8\<rparr>]"
  by (simp add: view_parts_def NumSegments_def GetPart_def u64_def upt_conv_Cons)

text \<open>
  Claim C1. For a range \<open>start, sz\<close> with \<open>sz > 0\<close> whose end \<open>start + sz\<close> is a
  64-bit offset, the parts of the segment view, for every positive segment size and
  for the view that \<open>SegmentBuf\<close> builds, are contiguous, do not overlap and cover
  the range exactly: there is at least one part, every part has \<open>start < end\<close>, each
  part ends where the next starts, the first starts at \<open>start\<close>, the last ends at
  \<open>start + sz\<close>, and the lengths add up to \<open>sz\<close>.
\<close>

theorem segment_parts_exact_cover:
  assumes "0 < sz" and "start + sz < 2 ^ 64"
    and "(0 < seg \<and> ps = view_parts \<lparr>view_start = start, view_size = sz, view_segment_size = seg\<rparr>)
         \<or> (SegmentBuf start sz = Inr v \<and> ps = view_parts v)"
  shows "ps \<noteq> []
       \<and> (\<forall>p \<in> set ps. bp_start p < bp_end p)
       \<and> (\<forall>i. Suc i < length ps \<longrightarrow> bp_end (ps ! i) = bp_start (ps ! Suc i))
       \<and> (\<forall>i j. i < j \<and> j < length ps \<longrightarrow> bp_end (ps ! i) \<le> bp_start (ps ! j))
       \<and> bp_start (hd ps) = start
       \<and> bp_end (last ps) = start + sz
       \<and> sum_list (map part_len ps) = sz"
proof -
  obtain w where w: "ps = view_parts w" "view_start w = start" "view_size w = sz"
      "0 < view_segment_size w"
  proof (cases "SegmentBuf start sz = Inr v \<and> ps = view_parts v")
    case True
    then show ?thesis using SegmentBuf_view [of start sz v] that [of v] by simp
  next
    case False
    then have "0 < seg"
      and "ps = view_parts \<lparr>view_start = start, view_size = sz, view_segment_size = seg\<rparr>"
      using assms(3) by auto
    then show ?thesis
      using that [of "\<lparr>view_start = start, view_size = sz, view_segment_size = seg\<rparr>"]
      by simp
  qed
  have ch: "chained start ps (start + sz)"
    using view_parts_chained [of w] w assms(2) by simp
  have ne: "ps \<noteq> []" using view_parts_nonempty [of w] w assms(1) by simp
  show ?thesis
    using ne chained_nonempty_parts [OF ch] chained_adjacent [OF ch] chained_disjoint [OF ch]
      chained_hd_last [OF ch ne] chained_sum [OF ch]
    by simp
qed

theorem segment_parts_exact_cover_witness:
  "(0::nat) < 10 \<and> (5::nat) + 10 < 2 ^ 64 \<and> (0::nat) < 4
   \<and> view_parts \<lparr>view_start = 5, view_size = 10, view_segment_size = 4\<rparr> \<noteq> []
   \<and> bp_start (hd (view_parts \<lparr>view_start = 5, view_size = 10, view_segment_size = 4\<rparr>)) = 5
   \<and> bp_end (last (view_parts \<lparr>view_start = 5, view_size = 10, view_segment_size = 4\<rparr>)) = 15
   \<and> sum_list (map part_len (view_parts \<lparr>view_start = 5, view_size = 10, view_segment_size = 4\<rparr>)) = 10
   \<and> SegmentBuf 5 10 = Inr \<lparr>view_start = 5, view_size = 10, view_segment_size = 8388608\<rparr>
   \<and> bp_start (hd (view_parts \<lparr>view_start = 5, view_size = 10, view_segment_size = 8388608\<rparr>)) = 5
   \<and> bp_end (last (view_parts \<lparr>view_start = 5, view_size = 10, view_segment_size = 8388608\<rparr>)) = 15
   \<and> sum_list (map part_len
         (view_parts \<lparr>view_start = 5, view_size = 10, view_segment_size = 8388608\<rparr>)) = 10"
proof -
  let ?small = "\<lparr>view_start = 5, view_size = 10, view_segment_size = 4\<rparr>"
  let ?built = "\<lparr>view_start = 5, view_size = 10, view_segment_size = 8388608\<rparr>"
  have built: "SegmentBuf 5 10 = Inr ?built"
    by (simp add: SegmentBuf_def kS3DefaultBufSize_def kS3MaxMultiPart_def MB_def)
  show ?thesis
    using segment_parts_exact_cover [of 10 5 4 "view_parts ?small" ?built]
      segment_parts_exact_cover [of 10 5 4 "view_parts ?built" ?built] built
    by simp
qed

section \<open>The enlarged segment size\<close>

lemma SegmentBuf_enlarged:
  assumes "sz div kS3DefaultBufSize > kS3MaxMultiPart"
  shows "SegmentBuf start sz =
          (if kS3MinBufSize < sz div (kS3MaxMultiPart + 1) \<and> sz div (kS3MaxMultiPart + 1) < kS3MaxBufSize
           then Inr \<lparr>view_start = start, view_size = sz,
                      view_segment_size = sz div (kS3MaxMultiPart + 1)\<rparr>
           else Inl AssertionFailed)"
  using assms by (simp add: SegmentBuf_def Let_def)

lemma enlarged_segment_not_smaller:
  assumes "sz div kS3DefaultBufSize > kS3MaxMultiPart"
  shows "kS3DefaultBufSize \<le> sz div (kS3MaxMultiPart + 1)"
proof -
  have "Suc kS3MaxMultiPart \<le> sz div kS3DefaultBufSize" using assms by simp
  then have "Suc kS3MaxMultiPart * kS3DefaultBufSize \<le> sz"
    by (simp add: less_eq_div_iff_mult_less_eq kS3DefaultBufSize_def MB_def)
  then have "kS3DefaultBufSize * (kS3MaxMultiPart + 1) \<le> sz" by (simp add: mult.commute)
  then show ?thesis by (simp add: less_eq_div_iff_mult_less_eq)
qed

lemma partition_count_lower_bound:
  assumes "\<forall>p \<in> set ps. part_len p \<le> seg"
  shows "sum_list (map part_len ps) \<le> length ps * seg"
  using assms by (induction ps) auto

text \<open>
  Whatever way a buffer is cut into parts no longer than the enlarged segment size,
  there are more parts than \<open>kS3MaxMultiPart\<close>.
\<close>

lemma enlarged_segment_too_many_parts:
  assumes big: "sz div kS3DefaultBufSize > kS3MaxMultiPart"
    and bound: "\<forall>p \<in> set ps. part_len p \<le> sz div (kS3MaxMultiPart + 1)"
    and total: "sum_list (map part_len ps) = sz"
  shows "kS3MaxMultiPart < length ps"
proof (rule ccontr)
  assume "\<not> kS3MaxMultiPart < length ps"
  then have le: "length ps \<le> kS3MaxMultiPart" by simp
  let ?g = "sz div (kS3MaxMultiPart + 1)"
  have "0 < ?g"
    using enlarged_segment_not_smaller [OF big] by (simp add: kS3DefaultBufSize_def MB_def)
  have "sz \<le> length ps * ?g" using partition_count_lower_bound [OF bound] total by simp
  also have "\<dots> \<le> kS3MaxMultiPart * ?g" using le by simp
  also have "\<dots> < (kS3MaxMultiPart + 1) * ?g" using \<open>0 < ?g\<close> by simp
  also have "\<dots> \<le> sz"
    by (rule div_times_less_eq_dividend [of sz "kS3MaxMultiPart + 1",
          unfolded mult.commute [of "sz div (kS3MaxMultiPart + 1)"]])
  finally show False by simp
qed

text \<open>
  Claim C3. At \<open>sz = 10001 * 8 MiB\<close> the quotient \<open>sz div kS3DefaultBufSize\<close> exceeds
  \<open>kS3MaxMultiPart\<close>, \<open>SegmentBuf\<close> passes its assertion with the segment size
  \<open>sz div (kS3MaxMultiPart + 1)\<close> = 8 MiB, and the view has 10001 parts: more than
  \<open>kS3MaxMultiPart\<close>, with no failure reported.
\<close>

theorem SegmentBuf_part_count_exceeds_limit:
  "SegmentBuf 0 83894468608 =
     Inr \<lparr>view_start = 0, view_size = 83894468608, view_segment_size = 8388608\<rparr>
   \<and> 83894468608 div kS3DefaultBufSize > kS3MaxMultiPart
   \<and> length (view_parts \<lparr>view_start = 0, view_size = 83894468608, view_segment_size = 8388608\<rparr>) = 10001
   \<and> kS3MaxMultiPart < length (view_parts \<lparr>view_start = 0, view_size = 83894468608, view_segment_size = 8388608\<rparr>)"
  by (simp add: SegmentBuf_def Let_def length_view_parts NumSegments_def kS3DefaultBufSize_def
      kS3MaxMultiPart_def kS3MinBufSize_def kS3MaxBufSize_def MB_def GB_def)

section \<open>Size of an object\<close>

text \<open>
  Claim C7, as stated, fails: for an object that does not exist (the remote answers
  404) the result is the generic \<open>S3Error\<close>, not \<open>NotFound\<close>.
\<close>

theorem S3GetSize_missing_object_not_NotFound:
  "S3GetSize True (\<lambda>bucket key. Failure 404) ''b'' ''o'' 7
     = ([HeadObject ''b'' ''o''], ResultError S3Error, 7)
   \<and> fst (snd (S3GetSize True (\<lambda>bucket key. Failure 404) ''b'' ''o'' 7)) \<noteq> ResultError NotFound"
  by (simp add: S3GetSize_def CheckS3Error_def MOVED_PERMANENTLY_def ResultError_def)

text \<open>
  Claim C7, amended. Once the library is initialised, \<open>S3GetSize\<close> issues exactly one
  \<open>HeadObject\<close> request and returns: on success with the content length in \<^verbatim>\<open>*size\<close>; on
  a failure with an ordinary error result and \<^verbatim>\<open>*size\<close> untouched, \<open>AWSWrongRegion\<close> for
  a 301 answer and \<open>S3Error\<close> for every other failure, a missing object included. It
  never stops the process.
\<close>

theorem S3GetSize_returns:
  "S3GetSize True head bucket object size0 =
     (case head bucket object of
        Success content_length \<Rightarrow> ([HeadObject bucket object], ResultSuccess, content_length)
      | Failure code \<Rightarrow>
          ([HeadObject bucket object],
           ResultError (if code = MOVED_PERMANENTLY then AWSWrongRegion else S3Error), size0))"
  by (simp add: S3GetSize_def CheckS3Error_def split: Outcome.splits)

section \<open>Ranged downloads\<close>

lemma u64_sub_nowrap:
  assumes "b \<le> a" and "a < 2 ^ 64"
  shows "u64_sub a b = a - b"
proof -
  have b: "b mod 2 ^ 64 = b" using assms by simp
  have "a + 2 ^ 64 - b = (a - b) + 2 ^ 64" using assms by simp
  then have "(a + 2 ^ 64 - b) mod 2 ^ 64 = (a - b) mod 2 ^ 64" by (simp only: mod_add_self2)
  also have "\<dots> = a - b" using assms by simp
  finally show ?thesis by (simp only: u64_sub_def b)
qed

lemma digit_val_digit_char: "d < 10 \<Longrightarrow> digit_val (digit_char d) = d"
proof -
  assume "d < 10"
  then have "d = 0 \<or> d = 1 \<or> d = 2 \<or> d = 3 \<or> d = 4 \<or> d = 5 \<or> d = 6 \<or> d = 7 \<or> d = 8 \<or> d = 9"
    by arith
  then show ?thesis
    by (elim disjE) (simp_all add: digit_val_def digit_char_def)
qed

lemma undec_snoc: "undec (s @ [c]) = 10 * undec s + digit_val c"
  by (simp add: undec_def)

text \<open>The decimal digits written for \<open>n\<close> denote \<open>n\<close>.\<close>

lemma undec_dec: "undec (dec n) = n"
proof (induction n rule: dec.induct)
  case (1 n)
  show ?case
  proof (cases "n < 10")
    case True
    then show ?thesis
      by (subst dec.simps) (simp add: undec_def digit_val_digit_char)
  next
    case False
    then have "undec (dec (n div 10)) = n div 10" using "1" by simp
    moreover have "dec n = dec (n div 10) @ [digit_char (n mod 10)]"
      using False by (subst dec.simps) simp
    ultimately show ?thesis by (simp add: undec_snoc digit_val_digit_char)
  qed
qed

lemma dec_example: "dec 4095 = ''4095''"
  by (simp add: dec.simps digit_char_def)

text \<open>
  Claim C8. For a part with \<open>start < end\<close> (the end exclusive, a 64-bit offset) the
  request's range header is \<open>bytes=start-(end-1)\<close>, in decimal, and the buffer that
  receives the response has \<open>end - start + 1\<close> bytes (in \<^verbatim>\<open>uint64_t\<close> arithmetic; the
  sum wraps only for the part from 0 to \<open>2^64 - 1\<close>).
\<close>

theorem PrepareObjectRequest_inclusive_range:
  assumes "bp_start part < bp_end part" and "bp_end part < 2 ^ 64"
  shows "get_range (PrepareObjectRequest bucket object part)
           = ''bytes='' @ dec (bp_start part) @ ''-'' @ dec (bp_end part - 1)
       \<and> get_length (PrepareObjectRequest bucket object part)
           = (bp_end part - bp_start part + 1) mod 2 ^ 64
       \<and> (part_len part + 1 < 2 ^ 64 \<longrightarrow>
            get_length (PrepareObjectRequest bucket object part) = part_len part + 1)
       \<and> get_dest (PrepareObjectRequest bucket object part) = bp_dest part"
  using assms
  by (simp add: PrepareObjectRequest_def u64_sub_nowrap u64_def part_len_def)

theorem PrepareObjectRequest_inclusive_range_witness:
  "(4096::nat) < 8192 \<and> (8192::nat) < 2 ^ 64
   \<and> get_range (PrepareObjectRequest ''b'' ''o'' \<lparr>bp_start = 4096, bp_end = 8192, bp_dest = 0\<rparr>)
        = ''bytes=4096-8191''
   \<and> get_length (PrepareObjectRequest ''b'' ''o'' \<lparr>bp_start = 4096, bp_end = 8192, bp_dest = 0\<rparr>)
        = 4097"
  using PrepareObjectRequest_inclusive_range
    [of "\<lparr>bp_start = 4096, bp_end = 8192, bp_dest = 0\<rparr>" "''b''" "''o''"]
  by (simp add: dec.simps digit_char_def part_len_def)

section \<open>Asynchronous download of nothing\<close>

lemma S3GetAsync_nonzero_has_handle:
  "0 < sz \<Longrightarrow> \<exists>w. S3GetAsync library_init reply arrival bucket object start sz result_buf = Inr (Some w)"
  by (simp add: S3GetAsync_def split: prod.splits)

lemma S3GetAsync_example:
  "S3GetAsync True (\<lambda>r. Success [1, 2, 3]) [0] ''b'' ''o'' 10 3 [0, 0, 0]
     = Inr (Some (FileAsyncWork
          [GetObjectAsync \<lparr>get_bucket = ''b'', get_key = ''o'', get_range = ''bytes=10-12'',
                           get_dest = 0, get_length = 4\<rparr>]
          ResultSuccess [1, 2, 3]))"
  by (simp add: S3GetAsync_def S3GetAsync_task_def S3GetMultiAsync_def SegmentBuf_def
      kS3DefaultBufSize_def kS3MaxMultiPart_def MB_def view_parts_def NumSegments_def
      GetPart_def u64_def SetGoal_def new_CountingSemaphore_def PrepareObjectRequest_def
      u64_sub_def dec.simps digit_char_def GoalMinusOne_def WaitGoal_def write_at_def
      ResultSuccess_def)

text \<open>
  Claim C9. \<open>S3GetAsync\<close> with size 0 returns success with no handle, whatever the
  bucket, object, start offset and buffer (and whether or not the library is
  initialised); so no request is ever dispatched for the call and the buffer stays as
  it was. \<open>S3GetMultiAsync\<close> with size 0 likewise dispatches nothing, returns success
  and leaves the semaphore alone.
\<close>

theorem S3GetAsync_zero_size:
  "S3GetAsync library_init reply arrival bucket object start 0 result_buf = Inr None
   \<and> requests_of (S3GetAsync library_init reply arrival bucket object start 0 result_buf) = []
   \<and> buffer_after result_buf
        (S3GetAsync library_init reply arrival bucket object start 0 result_buf) = result_buf
   \<and> S3GetMultiAsync library_init bucket object start 0 sema = ([], ResultSuccess, sema)"
proof -
  have "SegmentBuf start 0 =
          Inr \<lparr>view_start = start, view_size = 0, view_segment_size = kS3DefaultBufSize\<rparr>"
    by (simp add: SegmentBuf_def)
  then have "S3GetMultiAsync library_init bucket object start 0 sema = ([], ResultSuccess, sema)"
    by (simp add: S3GetMultiAsync_def view_parts_empty)
  then show ?thesis
    by (simp add: S3GetAsync_def requests_of_def buffer_after_def)
qed

section \<open>Batched delete\<close>

lemma key_batches_stop: "n = 0 \<or> xs = [] \<Longrightarrow> key_batches n xs = []"
  by (subst key_batches.simps) simp

lemma key_batches_step: "0 < n \<Longrightarrow> xs \<noteq> [] \<Longrightarrow> key_batches n xs = take n xs # key_batches n (drop n xs)"
  by (subst key_batches.simps) simp

lemma key_batches_Nil [simp]: "key_batches n [] = []"
  by (simp add: key_batches_stop)

lemma key_batches_fits:
  assumes "xs \<noteq> []" and "length xs \<le> n"
  shows "key_batches n xs = [xs]"
proof -
  have "0 < n" using assms by (cases n) auto
  then show ?thesis using assms key_batches_step [of n xs] by simp
qed

lemma key_batches_full:
  assumes "0 < n" and "length a = n"
  shows "key_batches n (a @ ys) = a # key_batches n ys"
proof -
  have "a @ ys \<noteq> []" using assms by auto
  then show ?thesis using assms key_batches_step [of n "a @ ys"] by simp
qed

lemma concat_key_batches: "0 < n \<Longrightarrow> concat (key_batches n xs) = xs"
proof (induction n xs rule: key_batches.induct)
  case (1 n xs)
  show ?case
  proof (cases "xs = []")
    case True
    then show ?thesis by simp
  next
    case False
    then have "concat (key_batches n (drop n xs)) = drop n xs" using "1" by simp
    then show ?thesis using False "1.prems" key_batches_step [of n xs] by simp
  qed
qed

lemma key_batches_size: "b \<in> set (key_batches n xs) \<Longrightarrow> b \<noteq> [] \<and> length b \<le> n"
proof (induction n xs rule: key_batches.induct)
  case (1 n xs)
  show ?case
  proof (cases "n = 0 \<or> xs = []")
    case True
    then show ?thesis using "1.prems" by (simp add: key_batches_stop)
  next
    case False
    then have "b = take n xs \<or> b \<in> set (key_batches n (drop n xs))"
      using "1.prems" key_batches_step [of n xs] by simp
    then show ?thesis using False "1.IH" by auto
  qed
qed

lemma length_key_batches: "0 < n \<Longrightarrow> length (key_batches n xs) = (length xs + n - 1) div n"
proof (induction n xs rule: key_batches.induct)
  case (1 n xs)
  show ?case
  proof (cases "xs = []")
    case True
    then show ?thesis using "1.prems" by simp
  next
    case False
    then have pos: "0 < length xs" by simp
    have IH: "length (key_batches n (drop n xs)) = (length xs - n + n - 1) div n"
      using "1" False by simp
    have len: "length (key_batches n xs) = Suc (length (key_batches n (drop n xs)))"
      using False "1.prems" key_batches_step [of n xs] by simp
    have rest: "(length xs - n + n - 1) div n = (length xs - 1) div n"
    proof (cases "n \<le> length xs")
      case True
      then show ?thesis by simp
    next
      case False
      then have "length xs - n + n - 1 = n - 1" and "length xs - 1 < n" by simp_all
      then show ?thesis using "1.prems" by simp
    qed
    have eq: "length xs + n - 1 = (length xs - 1) + n" using pos by arith
    have "((length xs - 1) + n) div n = Suc ((length xs - 1) div n)"
      using "1.prems" div_add_self2 [of n "length xs - 1"] by simp
    then have "(length xs + n - 1) div n = Suc ((length xs - 1) div n)"
      by (simp only: eq)
    then show ?thesis by (simp only: len IH rest)
  qed
qed

lemma S3Delete_unfold:
  "files \<noteq> [] \<Longrightarrow>
   S3Delete library_init remote JoinPath bucket object files =
     S3Delete_from library_init remote JoinPath bucket object files
       \<lparr>aws_objs = [], index = 0, res = Inr (), trace = []\<rparr>"
  by (simp add: S3Delete_def S3Delete_from_def S3Delete_finish_def split: sum.splits prod.splits)

lemma S3Delete_empty:
  "S3Delete library_init remote JoinPath bucket object [] = ([], ResultSuccess)"
  by (simp add: S3Delete_def)

lemma send_batch_initialised:
  "send_batch True remote bucket st =
     Inr (st\<lparr> res := (case remote (trace st) bucket (aws_objs st) of
                         Success _ \<Rightarrow> res st | Failure _ \<Rightarrow> Inl S3Error),
              trace := trace st @ [DeleteObjects bucket (aws_objs st)] \<rparr>)"
  by (simp add: send_batch_def S3SendDelete_def split: Outcome.splits)

lemma S3Delete_from_batches:
  assumes "length (aws_objs st) \<le> kS3MaxDelete"
    and "index st mod kS3MaxDelete = length (aws_objs st) mod kS3MaxDelete"
    and "(index st = 0) = (aws_objs st = [])"
    and "send_batches remote bucket (trace st)
           (key_batches kS3MaxDelete (aws_objs st @ map (JoinPath object) files)) = (h, rs)"
  shows "S3Delete_from True remote JoinPath bucket object files st = (h, Inr (remember (res st) rs))"
  using assms
proof (induction files arbitrary: st h rs)
  case Nil
  show ?case
  proof (cases "aws_objs st = []")
    case True
    then show ?thesis using Nil.prems(4)
      by (simp add: S3Delete_from_def S3Delete_finish_def)
  next
    case False
    then have "key_batches kS3MaxDelete (aws_objs st) = [aws_objs st]"
      using Nil.prems(1) by (simp add: key_batches_fits)
    then have "h = trace st @ [DeleteObjects bucket (aws_objs st)]"
      and "rs = [case remote (trace st) bucket (aws_objs st) of
                   Success _ \<Rightarrow> Inr () | Failure _ \<Rightarrow> Inl S3Error]"
      using Nil.prems(4) by auto
    then show ?thesis using False
      by (simp add: S3Delete_from_def S3Delete_finish_def send_batch_initialised
          split: Outcome.splits)
  qed
next
  case (Cons f fs)
  have npos: "0 < kS3MaxDelete" by (simp add: kS3MaxDelete_def)
  let ?a = "aws_objs st"
  show ?case
  proof (cases "index st \<noteq> 0 \<and> index st mod kS3MaxDelete = 0")
    case True
    then have "?a \<noteq> []" and "length ?a mod kS3MaxDelete = 0"
      using Cons.prems(2,3) by auto
    then have full: "length ?a = kS3MaxDelete"
      using Cons.prems(1) npos
      by (metis le_neq_implies_less length_greater_0_conv mod_less neq0_conv)
    define r where "r = (case remote (trace st) bucket ?a of
                           Success _ \<Rightarrow> Inr () | Failure _ \<Rightarrow> (Inl S3Error :: ErrorCode + unit))"
    define st2 where "st2 = st\<lparr> res := (case remote (trace st) bucket ?a of
                                          Success _ \<Rightarrow> res st | Failure _ \<Rightarrow> Inl S3Error),
                               trace := trace st @ [DeleteObjects bucket ?a],
                               aws_objs := [JoinPath object f],
                               index := index st + 1 \<rparr>"
    have step: "S3Delete_step True remote JoinPath bucket object f st = Inr st2"
      using True by (simp add: S3Delete_step_def send_batch_initialised st2_def)
    have ch: "key_batches kS3MaxDelete (?a @ map (JoinPath object) (f # fs))
               = ?a # key_batches kS3MaxDelete (aws_objs st2 @ map (JoinPath object) fs)"
      using key_batches_full [OF npos full] by (simp add: st2_def)
    obtain h' rs' where sb: "send_batches remote bucket (trace st2)
           (key_batches kS3MaxDelete (aws_objs st2 @ map (JoinPath object) fs)) = (h', rs')"
      by (cases "send_batches remote bucket (trace st2)
           (key_batches kS3MaxDelete (aws_objs st2 @ map (JoinPath object) fs))") auto
    have hr: "h = h'" "rs = r # rs'"
      using Cons.prems(4) sb unfolding ch by (simp_all add: st2_def r_def)
    have i1: "length (aws_objs st2) \<le> kS3MaxDelete" using npos by (simp add: st2_def)
    have "(index st + 1) mod kS3MaxDelete = 1 mod kS3MaxDelete"
      using True by (metis mod_add_left_eq add_0)
    then have i2: "index st2 mod kS3MaxDelete = length (aws_objs st2) mod kS3MaxDelete"
      by (simp add: st2_def)
    have i3: "(index st2 = 0) = (aws_objs st2 = [])" by (simp add: st2_def)
    have "S3Delete_from True remote JoinPath bucket object fs st2
            = (h', Inr (remember (res st2) rs'))"
      using Cons.IH [OF i1 i2 i3 sb] .
    moreover have "remember (res st) (r # rs') = remember (res st2) rs'"
      by (cases "remote (trace st) bucket ?a") (simp_all add: r_def st2_def)
    ultimately show ?thesis
      using step hr by (simp add: S3Delete_from_def)
  next
    case False
    have lt: "length ?a < kS3MaxDelete"
    proof (cases "?a = []")
      case True
      then show ?thesis using npos by simp
    next
      case nonempty: False
      then have "index st mod kS3MaxDelete \<noteq> 0" using False Cons.prems(3) by auto
      then have "length ?a \<noteq> kS3MaxDelete" using Cons.prems(2) by auto
      then show ?thesis using Cons.prems(1) by simp
    qed
    define st2 where "st2 = st\<lparr> aws_objs := ?a @ [JoinPath object f],
                               index := index st + 1 \<rparr>"
    have step: "S3Delete_step True remote JoinPath bucket object f st = Inr st2"
      using False by (auto simp: S3Delete_step_def st2_def)
    have sb: "send_batches remote bucket (trace st2)
           (key_batches kS3MaxDelete (aws_objs st2 @ map (JoinPath object) fs)) = (h, rs)"
      using Cons.prems(4) by (simp add: st2_def)
    have i1: "length (aws_objs st2) \<le> kS3MaxDelete" using lt by (simp add: st2_def)
    have "Suc (index st) mod kS3MaxDelete = Suc (length ?a) mod kS3MaxDelete"
      using Cons.prems(2) by (metis mod_Suc_eq)
    then have i2: "index st2 mod kS3MaxDelete = length (aws_objs st2) mod kS3MaxDelete"
      by (simp add: st2_def)
    have i3: "(index st2 = 0) = (aws_objs st2 = [])" by (simp add: st2_def)
    have "S3Delete_from True remote JoinPath bucket object fs st2
            = (h, Inr (remember (res st2) rs))"
      using Cons.IH [OF i1 i2 i3 sb] .
    then show ?thesis using step by (simp add: S3Delete_from_def st2_def)
  qed
qed

lemma send_batches_trace:
  "send_batches remote bucket history bs = (h, rs) \<Longrightarrow>
     h = history @ map (DeleteObjects bucket) bs \<and> length rs = length bs
     \<and> (\<forall>r \<in> set rs. r = Inr () \<or> r = Inl S3Error)"
proof (induction bs arbitrary: history h rs)
  case Nil
  then show ?case by simp
next
  case (Cons b bs)
  obtain h' rs' where sb: "send_batches remote bucket (history @ [DeleteObjects bucket b]) bs = (h', rs')"
    by (cases "send_batches remote bucket (history @ [DeleteObjects bucket b]) bs") auto
  then have "h = h'"
    and "rs = (case remote history bucket b of Success _ \<Rightarrow> Inr () | Failure _ \<Rightarrow> Inl S3Error) # rs'"
    using Cons.prems by simp_all
  then show ?case using Cons.IH [OF sb] by (auto split: Outcome.splits)
qed

lemma first_error_mem: "first_error rs = Inl e \<Longrightarrow> Inl e \<in> set rs"
  by (induction rs rule: first_error.induct) auto

lemma first_error_success: "first_error rs = Inr () \<longleftrightarrow> (\<forall>r \<in> set rs. r = Inr ())"
  by (induction rs rule: first_error.induct) auto

lemma remember_first_error:
  assumes "\<forall>r \<in> set rs. r = Inr () \<or> r = Inl S3Error"
  shows "remember r0 rs = (case first_error rs of Inl e \<Rightarrow> Inl e | Inr _ \<Rightarrow> r0)"
  using assms
proof (induction r0 rs rule: remember.induct)
  case (1 r)
  then show ?case by simp
next
  case (2 r e rs)
  then have e: "e = S3Error" by simp
  have "remember (Inl e) rs = (case first_error rs of Inl e' \<Rightarrow> Inl e' | Inr _ \<Rightarrow> Inl e)"
    using 2 by simp
  moreover have "first_error rs = Inl e' \<Longrightarrow> e' = S3Error" for e'
    using first_error_mem [of rs e'] 2 by auto
  ultimately show ?case using e by (auto split: sum.splits)
next
  case (3 r u rs)
  then show ?case by simp
qed

lemma key_batches_two_full_and_one:
  assumes "0 < n" and "length xs = 2 * n + 1"
  shows "key_batches n xs = [take n xs, take n (drop n xs), drop (2 * n) xs]"
proof -
  have "xs \<noteq> []" using assms by auto
  then have 1: "key_batches n xs = take n xs # key_batches n (drop n xs)"
    using assms key_batches_step by blast
  have "drop n xs \<noteq> []" using assms by auto
  then have 2: "key_batches n (drop n xs) = take n (drop n xs) # key_batches n (drop n (drop n xs))"
    using assms key_batches_step by blast
  have "length (drop n (drop n xs)) = 1" using assms by simp
  then have "drop n (drop n xs) \<noteq> []" and "length (drop n (drop n xs)) \<le> n"
    using assms by auto
  then have 3: "key_batches n (drop n (drop n xs)) = [drop n (drop n xs)]"
    by (rule key_batches_fits)
  have "drop n (drop n xs) = drop (2 * n) xs" by (simp add: mult_2)
  then show ?thesis using 1 2 3 by simp
qed

text \<open>
  Claim C2. For a non-empty set of keys (in the order of iteration) and any remote,
  \<open>S3Delete\<close> issues exactly one \<open>DeleteObjects\<close> request for each of the consecutive
  groups of \<open>kS3MaxDelete\<close> joined keys, in order and whatever the earlier requests
  reported; the groups are non-empty, no larger than \<open>kS3MaxDelete\<close>, and together
  they are the keys; the result is the first error among the reports, success exactly
  if every request succeeded; with \<open>2 * kS3MaxDelete + 1\<close> keys there are three
  requests, the last with one key.
\<close>

theorem S3Delete_batches:
  assumes "files \<noteq> []"
  shows "let keys = map (JoinPath object) files;
             batches = key_batches kS3MaxDelete keys;
             reports = snd (send_batches remote bucket [] batches)
         in S3Delete True remote JoinPath bucket object files
              = (map (DeleteObjects bucket) batches, Inr (first_error reports))
          \<and> concat batches = keys
          \<and> (\<forall>b \<in> set batches. b \<noteq> [] \<and> length b \<le> kS3MaxDelete)
          \<and> length batches = (length files + kS3MaxDelete - 1) div kS3MaxDelete
          \<and> length reports = length batches
          \<and> (first_error reports = Inr () \<longleftrightarrow> (\<forall>r \<in> set reports. r = Inr ()))
          \<and> (length files = 2 * kS3MaxDelete + 1 \<longrightarrow>
                length batches = 3 \<and> length (last batches) = 1)"
proof -
  define keys where "keys = map (JoinPath object) files"
  define batches where "batches = key_batches kS3MaxDelete keys"
  define reports where "reports = snd (send_batches remote bucket [] batches)"
  have npos: "0 < kS3MaxDelete" by (simp add: kS3MaxDelete_def)
  obtain h where sb: "send_batches remote bucket [] batches = (h, reports)"
    by (cases "send_batches remote bucket [] batches") (simp add: reports_def)
  have tr: "h = map (DeleteObjects bucket) batches" and len: "length reports = length batches"
    and errs: "\<forall>r \<in> set reports. r = Inr () \<or> r = Inl S3Error"
    using send_batches_trace [OF sb] by simp_all
  have "S3Delete_from True remote JoinPath bucket object files
          \<lparr>aws_objs = [], index = 0, res = Inr (), trace = []\<rparr>
        = (h, Inr (remember (Inr ()) reports))"
    using S3Delete_from_batches
      [of "\<lparr>aws_objs = [], index = 0, res = Inr (), trace = []\<rparr>" remote bucket JoinPath
        object files h reports]
      sb
    by (simp add: batches_def keys_def)
  moreover have "remember (Inr ()) reports = first_error reports"
    using remember_first_error [OF errs, of "Inr ()"] by (cases "first_error reports") auto
  ultimately have run: "S3Delete True remote JoinPath bucket object files
      = (map (DeleteObjects bucket) batches, Inr (first_error reports))"
    using S3Delete_unfold [OF assms] tr by simp
  have cc: "concat batches = keys" using concat_key_batches [OF npos] by (simp add: batches_def)
  have sz: "\<forall>b \<in> set batches. b \<noteq> [] \<and> length b \<le> kS3MaxDelete"
    using key_batches_size by (auto simp: batches_def)
  have cnt: "length batches = (length files + kS3MaxDelete - 1) div kS3MaxDelete"
    using length_key_batches [OF npos, of keys] by (simp add: batches_def keys_def)
  have three: "length batches = 3 \<and> length (last batches) = 1"
    if "length files = 2 * kS3MaxDelete + 1"
  proof -
    have "length keys = 2 * kS3MaxDelete + 1" using that by (simp add: keys_def)
    then have "batches = [take kS3MaxDelete keys, take kS3MaxDelete (drop kS3MaxDelete keys),
                          drop (2 * kS3MaxDelete) keys]"
      and "length (drop (2 * kS3MaxDelete) keys) = 1"
      using key_batches_two_full_and_one [OF npos] by (simp_all add: batches_def)
    then show ?thesis by simp
  qed
  show ?thesis
    unfolding Let_def keys_def [symmetric] batches_def [symmetric] reports_def [symmetric]
    using run cc sz cnt len first_error_success [of reports] three by blast
qed

theorem S3Delete_batches_witness:
  "replicate 1991 ''k'' \<noteq> []
   \<and> S3Delete True (\<lambda>history bucket keys. if length history = 1 then Failure 500 else Success ())
        (\<lambda>dir name. dir @ ''/'' @ name) ''bkt'' ''dir'' (replicate 1991 ''k'')
      = ([DeleteObjects ''bkt'' (replicate 995 ''dir/k''),
          DeleteObjects ''bkt'' (replicate 995 ''dir/k''),
          DeleteObjects ''bkt'' [''dir/k'']],
         Inr (Inl S3Error))"
proof -
  have ne: "replicate 1991 ''k'' \<noteq> []" by simp
  have ch: "key_batches kS3MaxDelete (replicate 1991 ''dir/k'')
              = [replicate 995 ''dir/k'', replicate 995 ''dir/k'', [''dir/k'']]"
    using key_batches_two_full_and_one [of 995 "replicate 1991 ''dir/k''"]
    by (simp add: kS3MaxDelete_def)
  show ?thesis
    using S3Delete_batches [OF ne, of "\<lambda>dir name. dir @ ''/'' @ name" "''dir''"
        "\<lambda>history bucket keys. if length history = 1 then Failure 500 else Success ()" "''bkt''"]
    by (simp add: Let_def ch)
qed

section \<open>Uploads\<close>

lemma upload_callbacks_all_success:
  assumes "set order \<subseteq> {..<length tags}"
    and "\<forall>i \<in> set order. part_outcome i = Success (etag i)"
  shows "upload_callbacks part_outcome order (tags, finished)
           = Inr (map (\<lambda>i. if i \<in> set order then etag i else tags ! i) [0..<length tags],
                  finished + length order)"
  using assms
proof (induction order arbitrary: tags finished)
  case Nil
  then show ?case by (simp add: map_nth)
next
  case (Cons i order)
  have i: "i < length tags" and ok: "part_outcome i = Success (etag i)"
    using Cons.prems by simp_all
  have "upload_callbacks part_outcome order (tags[i := etag i], finished + 1)
          = Inr (map (\<lambda>j. if j \<in> set order then etag j else tags[i := etag i] ! j)
                   [0..<length (tags[i := etag i])],
                 finished + 1 + length order)"
    using Cons.prems by (intro Cons.IH) auto
  moreover have "map (\<lambda>j. if j \<in> set order then etag j else tags[i := etag i] ! j)
                   [0..<length (tags[i := etag i])]
               = map (\<lambda>j. if j \<in> set (i # order) then etag j else tags ! j) [0..<length tags]"
    using i by (auto simp: nth_list_update)
  ultimately show ?case using i ok by simp
qed

lemma permutation_length:
  assumes "distinct order" and "set order = {..<n}"
  shows "length order = n"
  using assms distinct_card [of order] by simp

lemma upload_callbacks_permutation:
  assumes "distinct order" and "set order = {..<n}"
    and "\<forall>i < n. part_outcome i = Success (etag i)"
  shows "upload_callbacks part_outcome order (replicate n [], 0) = Inr (map etag [0..<n], n)"
proof -
  have "upload_callbacks part_outcome order (replicate n [], 0)
          = Inr (map (\<lambda>i. if i \<in> set order then etag i else replicate n [] ! i)
                   [0..<length (replicate n ([]::string))],
                 0 + length order)"
    using assms by (intro upload_callbacks_all_success) auto
  moreover have "map (\<lambda>i. if i \<in> set order then etag i else replicate n [] ! i)
                   [0..<length (replicate n ([]::string))] = map etag [0..<n]"
    using assms(2) by auto
  ultimately show ?thesis using permutation_length [OF assms(1,2)] by simp
qed

lemma completed_parts_map:
  "completed_parts (map etag [0..<n]) = map (\<lambda>i. (i + 1, etag i)) [0..<n]"
  by (simp add: completed_parts_def)

lemma async_upload_callbacks_all_success:
  assumes "set order \<subseteq> {..<length (pm_parts pmh)}"
    and "length (pm_part_e_tags pmh) = length (pm_parts pmh)"
    and "int (length order) \<le> sema_remaining (pm_sema pmh)"
    and "\<forall>i \<in> set order. part_outcome i = Success (etag i)"
  shows "async_upload_callbacks part_outcome order pmh
           = Inr (pmh\<lparr> pm_part_e_tags :=
                          map (\<lambda>i. if i \<in> set order then etag i else pm_part_e_tags pmh ! i)
                            [0..<length (pm_parts pmh)],
                        pm_sema := (pm_sema pmh)
                          \<lparr>sema_remaining := sema_remaining (pm_sema pmh) - int (length order)\<rparr> \<rparr>)"
  using assms
proof (induction order arbitrary: pmh)
  case Nil
  have "map (\<lambda>i. pm_part_e_tags pmh ! i) [0..<length (pm_part_e_tags pmh)] = pm_part_e_tags pmh"
    by (rule map_nth)
  then have "map (\<lambda>i. pm_part_e_tags pmh ! i) [0..<length (pm_parts pmh)] = pm_part_e_tags pmh"
    using Nil.prems(2) by simp
  then show ?case by simp
next
  case (Cons i order)
  let ?tags = "pm_part_e_tags pmh"
  have i: "i < length (pm_parts pmh)" and ok: "part_outcome i = Success (etag i)"
    and rem: "0 < sema_remaining (pm_sema pmh)"
    using Cons.prems by simp_all
  define pmh' where "pmh' = pmh\<lparr> pm_part_e_tags := ?tags[i := etag i],
      pm_sema := (pm_sema pmh)\<lparr>sema_remaining := sema_remaining (pm_sema pmh) - 1\<rparr> \<rparr>"
  have step: "async_upload_callbacks part_outcome (i # order) pmh
                = async_upload_callbacks part_outcome order pmh'"
    using i ok rem by (simp add: GoalMinusOne_def pmh'_def)
  have "async_upload_callbacks part_outcome order pmh'
          = Inr (pmh'\<lparr> pm_part_e_tags :=
                          map (\<lambda>j. if j \<in> set order then etag j else pm_part_e_tags pmh' ! j)
                            [0..<length (pm_parts pmh')],
                        pm_sema := (pm_sema pmh')
                          \<lparr>sema_remaining := sema_remaining (pm_sema pmh') - int (length order)\<rparr> \<rparr>)"
    using Cons.prems by (intro Cons.IH) (auto simp: pmh'_def)
  moreover have "map (\<lambda>j. if j \<in> set order then etag j else pm_part_e_tags pmh' ! j)
                   [0..<length (pm_parts pmh')]
               = map (\<lambda>j. if j \<in> set (i # order) then etag j else ?tags ! j)
                   [0..<length (pm_parts pmh)]"
    using i Cons.prems(2) by (auto simp: nth_list_update pmh'_def)
  ultimately show ?case unfolding step by (simp add: pmh'_def)
qed

lemma SegmentBuf_parts_nonempty:
  assumes "SegmentBuf start sz = Inr v" and "0 < sz"
  shows "view_parts v \<noteq> []"
  using SegmentBuf_view [OF assms(1)] assms(2) view_parts_nonempty [of v] by simp

lemma kS3DefaultBufSize_pos: "0 < kS3DefaultBufSize"
  by (simp add: kS3DefaultBufSize_def MB_def)

text \<open>
  A multipart upload in which every request succeeds and every part's completion
  arrives once, in any order: the synchronous path.
\<close>

lemma S3UploadOverwrite_multipart:
  assumes big: "kS3DefaultBufSize \<le> sz"
    and cr: "env_create env = Success upload_id"
    and seg: "SegmentBuf 0 sz = Inr v"
    and perm: "distinct (env_arrival env)" "set (env_arrival env) = {..<NumSegments v}"
    and ok: "\<forall>i < NumSegments v. env_part env i = Success (etag i)"
  shows "S3UploadOverwrite True env bucket object sz =
           (CreateMultipartUpload bucket object
              # upload_part_requests bucket object upload_id (view_parts v)
              @ [CompleteMultipartUpload bucket object upload_id
                   (map (\<lambda>i. (i + 1, etag i)) [0..<NumSegments v])],
            (case env_complete env of
               Success _ \<Rightarrow> ResultSuccess | Failure _ \<Rightarrow> ResultError S3Error))"
proof -
  have pos: "0 < sz" using big kS3DefaultBufSize_pos by simp
  have ne: "view_parts v \<noteq> []" using SegmentBuf_parts_nonempty [OF seg pos] .
  have cb: "upload_callbacks (env_part env) (env_arrival env) (replicate (NumSegments v) [], 0)
              = Inr (map etag [0..<NumSegments v], NumSegments v)"
    using upload_callbacks_permutation [OF perm ok] .
  show ?thesis
    using big cr seg ne cb
    by (simp add: S3UploadOverwrite_def CheckS3Error_def Let_def length_view_parts
        completed_parts_map)
qed

text \<open>The same for the task of \<open>S3PutAsync\<close>.\<close>

lemma S3PutAsync_task_multipart:
  assumes big: "kS3DefaultBufSize \<le> sz"
    and cr: "env_create env = Success upload_id"
    and seg: "SegmentBuf 0 sz = Inr v"
    and perm: "distinct (env_arrival env)" "set (env_arrival env) = {..<NumSegments v}"
    and ok: "\<forall>i < NumSegments v. env_part env i = Success (etag i)"
  shows "S3PutAsync_task True env bucket object sz =
           (CreateMultipartUploadCallable bucket object
              # upload_part_requests bucket object upload_id (view_parts v)
              @ [CompleteMultipartUploadCallable bucket object upload_id
                   (map (\<lambda>i. (i + 1, etag i)) [0..<NumSegments v])],
            (case env_complete env of
               Success _ \<Rightarrow> ResultSuccess | Failure _ \<Rightarrow> ResultError S3Error))"
proof -
  let ?n = "NumSegments v"
  have pos: "0 < sz" using big kS3DefaultBufSize_pos by simp
  define pm where "pm = \<lparr> pm_parts = view_parts v, pm_part_e_tags = replicate ?n [],
      pm_sema = \<lparr>sema_goal = int ?n, sema_remaining = int ?n\<rparr>, pm_upload_id = [] \<rparr>"
  have a1: "S3PutMultiAsync1 True bucket object sz
              = ([CreateMultipartUploadCallable bucket object], Inr pm)"
    using pos seg
    by (simp add: S3PutMultiAsync1_def SetGoal_def new_CountingSemaphore_def length_view_parts
        pm_def)
  have a2: "S3PutMultiAsync2 env bucket object pm
              = (upload_part_requests bucket object upload_id (view_parts v), Inr (),
                 pm\<lparr>pm_upload_id := upload_id\<rparr>)"
    using cr by (simp add: S3PutMultiAsync2_def pm_def)
  have len: "length (env_arrival env) = ?n" using permutation_length [OF perm] .
  have "async_upload_callbacks (env_part env) (env_arrival env) (pm\<lparr>pm_upload_id := upload_id\<rparr>)
          = Inr (pm\<lparr> pm_upload_id := upload_id,
                     pm_part_e_tags :=
                        map (\<lambda>i. if i \<in> set (env_arrival env) then etag i
                                  else pm_part_e_tags (pm\<lparr>pm_upload_id := upload_id\<rparr>) ! i)
                          [0..<length (pm_parts (pm\<lparr>pm_upload_id := upload_id\<rparr>))],
                     pm_sema := (pm_sema (pm\<lparr>pm_upload_id := upload_id\<rparr>))
                        \<lparr>sema_remaining := sema_remaining (pm_sema (pm\<lparr>pm_upload_id := upload_id\<rparr>))
                                             - int (length (env_arrival env))\<rparr> \<rparr>)"
    using perm ok len
    by (subst async_upload_callbacks_all_success [where etag = etag])
       (auto simp: pm_def length_view_parts)
  then have cb: "async_upload_callbacks (env_part env) (env_arrival env)
                   (pm\<lparr>pm_upload_id := upload_id\<rparr>)
          = Inr (pm\<lparr> pm_upload_id := upload_id,
                     pm_part_e_tags := map etag [0..<?n],
                     pm_sema := \<lparr>sema_goal = int ?n, sema_remaining = 0\<rparr> \<rparr>)"
    using perm(2) len by (simp add: pm_def length_view_parts cong: map_cong)
  show ?thesis
    using big a1 a2 cb
    by (simp add: S3PutAsync_task_def S3PutMultiAsync3_def WaitGoal_def S3PutMultiAsyncFinish_def
        completed_parts_map ResultSuccess_def ResultError_def split: Outcome.splits)
qed


lemma upload_part_requests_no_completion:
  "filter is_completion_request (upload_part_requests bucket object upload_id parts) = []"
  by (simp add: upload_part_requests_def filter_empty_conv)

text \<open>
  Claim C4. In a multipart upload of \<open>n\<close> parts in which part \<open>i\<close> (from 0) is answered
  with the ETag \<open>etag i\<close> and the completions arrive in any order, each once, the only
  completion request sent, by \<open>S3UploadOverwrite\<close> and by the task of \<open>S3PutAsync\<close>
  alike, carries the manifest of \<open>n\<close> entries with part numbers 1 to \<open>n\<close> in order,
  entry \<open>i\<close> holding \<open>etag i\<close>.
\<close>

theorem completion_manifest_ordered:
  assumes "kS3DefaultBufSize \<le> sz"
    and "env_create env = Success upload_id"
    and "SegmentBuf 0 sz = Inr v"
    and "distinct (env_arrival env)" and "set (env_arrival env) = {..<NumSegments v}"
    and "\<forall>i < NumSegments v. env_part env i = Success (etag i)"
  shows "let n = length (view_parts v);
             manifest = map (\<lambda>i. (i + 1, etag i)) [0..<n]
         in filter is_completion_request (fst (S3UploadOverwrite True env bucket object sz))
              = [CompleteMultipartUpload bucket object upload_id manifest]
          \<and> filter is_completion_request (fst (S3PutAsync_task True env bucket object sz))
              = [CompleteMultipartUploadCallable bucket object upload_id manifest]
          \<and> length manifest = n
          \<and> map fst manifest = [1..<n + 1]
          \<and> (\<forall>i < n. manifest ! i = (i + 1, etag i))"
proof -
  have "map (fst \<circ> (\<lambda>i. (i + 1, etag i))) [0..<NumSegments v] = map Suc [0..<NumSegments v]"
    by simp
  then have nums: "map fst (map (\<lambda>i. (i + 1, etag i)) [0..<NumSegments v]) = [1..<NumSegments v + 1]"
    by (simp add: map_Suc_upt)
  show ?thesis
    using S3UploadOverwrite_multipart [OF assms, of bucket object]
      S3PutAsync_task_multipart [OF assms, of bucket object] nums
    by (simp add: Let_def length_view_parts upload_part_requests_no_completion)
qed

theorem completion_manifest_ordered_witness:
  "kS3DefaultBufSize \<le> 25165824
   \<and> filter is_completion_request
        (fst (S3UploadOverwrite True
                \<lparr>env_put = Success (), env_create = Success ''id'',
                 env_part = (\<lambda>i. Success (''etag-'' @ dec i)), env_arrival = [2, 0, 1],
                 env_complete = Success ()\<rparr> ''b'' ''o'' 25165824))
       = [CompleteMultipartUpload ''b'' ''o'' ''id''
            [(1, ''etag-0''), (2, ''etag-1''), (3, ''etag-2'')]]
   \<and> filter is_completion_request
        (fst (S3PutAsync_task True
                \<lparr>env_put = Success (), env_create = Success ''id'',
                 env_part = (\<lambda>i. Success (''etag-'' @ dec i)), env_arrival = [2, 0, 1],
                 env_complete = Success ()\<rparr> ''b'' ''o'' 25165824))
       = [CompleteMultipartUploadCallable ''b'' ''o'' ''id''
            [(1, ''etag-0''), (2, ''etag-1''), (3, ''etag-2'')]]"
proof -
  let ?v = "\<lparr>view_start = 0, view_size = 25165824, view_segment_size = 8388608\<rparr>"
  let ?env = "\<lparr>env_put = Success (), env_create = Success ''id'',
                 env_part = (\<lambda>i. Success (''etag-'' @ dec i)), env_arrival = [2, 0, 1],
                 env_complete = Success ()\<rparr>"
  have big: "kS3DefaultBufSize \<le> 25165824" by (simp add: kS3DefaultBufSize_def MB_def)
  have seg: "SegmentBuf 0 25165824 = Inr ?v"
    by (simp add: SegmentBuf_def kS3DefaultBufSize_def kS3MaxMultiPart_def MB_def)
  have n: "NumSegments ?v = 3" by (simp add: NumSegments_def)
  have three: "{..<(3::nat)} = {2, 0, 1}" by auto
  have upt3: "[0..<3] = [0, 1, 2]" by (simp add: upt_conv_Cons)
  show ?thesis
    using completion_manifest_ordered
      [of 25165824 ?env "''id''" ?v "\<lambda>i. ''etag-'' @ dec i" "''b''" "''o''"] big seg
    by (simp add: n three Let_def length_view_parts upt3 dec.simps digit_char_def)
qed

section \<open>Routing a put\<close>



lemma S3PutAsync_handle:
  "S3PutAsync library_init env bucket object sz =
     Inr (Some (FileAsyncWork (fst (S3PutAsync_task library_init env bucket object sz))
                  (snd (S3PutAsync_task library_init env bucket object sz)) ()))"
  by (simp add: S3PutAsync_def split: prod.splits)










section \<open>Listing\<close>

lemma find_str_Some_0: "find_str key pat = Some 0 \<longleftrightarrow> prefix pat key"
  by (cases key) auto

lemma assertions_iff_under_prefix:
  "(find_str key object = Some 0 \<and> char_at key (length object) = CHR ''/'')
     \<longleftrightarrow> under_prefix object key"
proof
  assume a: "find_str key object = Some 0 \<and> char_at key (length object) = CHR ''/''"
  then obtain rest where key: "key = object @ rest"
    by (auto simp: find_str_Some_0 prefix_def)
  have "char_at key (length object) = CHR ''/''" using a by simp
  then have "rest \<noteq> [] \<and> hd rest = CHR ''/''"
    using key by (cases rest) (auto simp: char_at_def nth_append)
  then obtain rest' where "rest = CHR ''/'' # rest'" by (cases rest) auto
  then show "under_prefix object key" using key by (simp add: under_prefix_def prefix_def)
next
  assume "under_prefix object key"
  then obtain rest where key: "key = object @ ''/'' @ rest"
    by (auto simp: under_prefix_def prefix_def)
  then show "find_str key object = Some 0 \<and> char_at key (length object) = CHR ''/''"
    by (simp add: find_str_Some_0 char_at_def nth_append)
qed

lemma under_prefix_name:
  "under_prefix object key \<Longrightarrow> key = object @ ''/'' @ drop (length object + 1) key"
  by (auto simp: under_prefix_def prefix_def)

lemma add_names_result:
  "add_names object keys lst =
     (if \<forall>key \<in> set keys. under_prefix object key
      then Inr (lst \<union> (\<lambda>key. drop (length object + 1) key) ` set keys)
      else Inl AssertionFailed)"
proof (induction keys arbitrary: lst)
  case Nil
  then show ?case by simp
next
  case (Cons key keys)
  show ?case
  proof (cases "under_prefix object key")
    case True
    then have "find_str key object = Some 0" and "char_at key (length object) = CHR ''/''"
      using assertions_iff_under_prefix [of key object] by simp_all
    then show ?thesis using True Cons.IH by auto
  next
    case False
    then have "find_str key object \<noteq> Some 0 \<or> char_at key (length object) \<noteq> CHR ''/''"
      using assertions_iff_under_prefix [of key object] by simp
    then show ?thesis using False by auto
  qed
qed

lemma add_names_examples:
  "add_names ''dir'' [''dir/a'', ''dir/sub/b''] {} = Inr {''a'', ''sub/b''}"
  "add_names ''dir'' [''dir''] {} = Inl AssertionFailed"
  "add_names ''dir'' [''dirx/a''] {} = Inl AssertionFailed"
  "add_names ''dir'' [''x/dir/a''] {} = Inl AssertionFailed"
  by (simp_all add: char_at_def insert_commute)

lemma S3List_loop_Suc:
  "S3List_loop (Suc fuel) remote bucket object token lst reqs =
     (case remote bucket object (tok_of token) of
        Failure _ \<Rightarrow> Some (reqs @ [ListObjectsV2 bucket object (tok_of token)], Inl FatalError)
      | Success s3result \<Rightarrow>
          page_step fuel remote bucket object s3result lst
            (reqs @ [ListObjectsV2 bucket object (tok_of token)]))"
  by (simp add: page_step_def split: Outcome.splits sum.splits)

lemma names_of_Cons:
  "names_of object (q # qs)
     = (\<lambda>key. drop (length object + 1) key) ` set (contents q) \<union> names_of object qs"
  by (simp add: names_of_def)

lemma names_of_snoc:
  "names_of object (qs @ [q])
     = names_of object qs \<union> (\<lambda>key. drop (length object + 1) key) ` set (contents q)"
  by (auto simp: names_of_def)

lemma S3List_loop_walk:
  assumes "walk remote bucket object (tok_of token) (pages @ [p])"
    and "\<forall>q \<in> set pages. \<forall>key \<in> set (contents q). under_prefix object key"
  shows "S3List_loop (length pages + Suc k) remote bucket object token lst reqs
           = page_step k remote bucket object p (lst \<union> names_of object pages)
               (reqs @ map (ListObjectsV2 bucket object) (request_tokens (tok_of token) pages))"
  using assms
proof (induction pages arbitrary: token lst reqs)
  case Nil
  then have "remote bucket object (tok_of token) = Success p" by simp
  then show ?case
    by (simp add: S3List_loop_Suc names_of_def request_tokens_def del: S3List_loop.simps)
next
  case (Cons q qs)
  obtain q' ps where rest: "qs @ [p] = q' # ps" by (cases "qs @ [p]") auto
  have w: "walk remote bucket object (tok_of token) (q # q' # ps)"
    using Cons.prems(1) rest by simp
  then have ans: "remote bucket object (tok_of token) = Success q"
    and tr: "is_truncated q" and tk: "next_token q \<noteq> []"
    and w': "walk remote bucket object (Some (next_token q)) (qs @ [p])"
    using rest by simp_all
  have tok: "tok_of (next_token q) = Some (next_token q)" using tk by (simp add: tok_of_def)
  have names: "add_names object (contents q) lst
      = Inr (lst \<union> (\<lambda>key. drop (length object + 1) key) ` set (contents q))"
    using Cons.prems(2) by (simp add: add_names_result)
  have "S3List_loop (length (q # qs) + Suc k) remote bucket object token lst reqs
          = S3List_loop (length qs + Suc k) remote bucket object (next_token q)
              (lst \<union> (\<lambda>key. drop (length object + 1) key) ` set (contents q))
              (reqs @ [ListObjectsV2 bucket object (tok_of token)])"
    using ans tr tk names by (simp add: page_step_def)
  also have "\<dots> = page_step k remote bucket object p
        ((lst \<union> (\<lambda>key. drop (length object + 1) key) ` set (contents q)) \<union> names_of object qs)
        ((reqs @ [ListObjectsV2 bucket object (tok_of token)])
           @ map (ListObjectsV2 bucket object) (request_tokens (tok_of (next_token q)) qs))"
    using w' Cons.prems(2) by (intro Cons.IH) (simp_all add: tok)
  also have "\<dots> = page_step k remote bucket object p (lst \<union> names_of object (q # qs))
        (reqs @ map (ListObjectsV2 bucket object) (request_tokens (tok_of token) (q # qs)))"
    by (simp add: names_of_Cons request_tokens_def tok Un_assoc)
  finally show ?case .
qed

text \<open>
  Claim C10. Let the remote answer the first request (no token) and each request with
  the token of the page before by the pages \<open>pages\<close> and then \<open>p\<close>, every page before
  \<open>p\<close> truncated with a non-empty token and holding only keys that begin with the
  prefix and a slash. Then, with fuel for more than these iterations, the requests
  issued up to \<open>p\<close> carry exactly these tokens, and at \<open>p\<close>: a key that does not begin
  with the prefix and a slash is an assertion failure; otherwise, if \<open>p\<close> is not
  truncated the listing ends there with success, and the caller's set has gained
  exactly the keys of all pages with the prefix and the slash taken off; if \<open>p\<close> is
  truncated with an empty token the assertion fails; and if it is truncated with a
  non-empty token the loop goes on with that token. Every name added is a name
  \<open>n\<close> such that \<open>prefix/n\<close> is one of the returned keys.
\<close>

theorem S3ListAsync_pages:
  assumes "walk remote bucket object None (pages @ [p])"
    and "\<forall>q \<in> set pages. \<forall>key \<in> set (contents q). under_prefix object key"
  shows "let reqs = map (ListObjectsV2 bucket object) (request_tokens None pages);
             run = S3ListAsync True (length pages + Suc k) remote bucket object lst
         in (\<not> (\<forall>key \<in> set (contents p). under_prefix object key) \<longrightarrow>
               run = Some (reqs, Inl AssertionFailed))
          \<and> ((\<forall>key \<in> set (contents p). under_prefix object key) \<and> \<not> is_truncated p \<longrightarrow>
               run = Some (reqs, Inr (lst \<union> names_of object (pages @ [p]))))
          \<and> ((\<forall>key \<in> set (contents p). under_prefix object key) \<and> is_truncated p
                \<and> next_token p = [] \<longrightarrow>
               run = Some (reqs, Inl AssertionFailed))
          \<and> ((\<forall>key \<in> set (contents p). under_prefix object key) \<and> is_truncated p
                \<and> next_token p \<noteq> [] \<longrightarrow>
               run = S3List_loop k remote bucket object (next_token p)
                       (lst \<union> names_of object (pages @ [p])) reqs)
          \<and> ((\<forall>key \<in> set (contents p). under_prefix object key) \<longrightarrow>
               (\<forall>name \<in> names_of object (pages @ [p]).
                  \<exists>q \<in> set (pages @ [p]). object @ ''/'' @ name \<in> set (contents q)))"
proof -
  have run: "S3ListAsync True (length pages + Suc k) remote bucket object lst
      = page_step k remote bucket object p (lst \<union> names_of object pages)
          (map (ListObjectsV2 bucket object) (request_tokens None pages))"
    using S3List_loop_walk [of remote bucket object "[]" pages p k lst "[]"] assms
    by (simp add: S3ListAsync_def tok_of_def)
  have names: "\<forall>name \<in> names_of object (pages @ [p]).
                  \<exists>q \<in> set (pages @ [p]). object @ ''/'' @ name \<in> set (contents q)"
    if ok: "\<forall>key \<in> set (contents p). under_prefix object key"
  proof
    fix name
    assume "name \<in> names_of object (pages @ [p])"
    then obtain q key where q: "q \<in> set (pages @ [p])" and key: "key \<in> set (contents q)"
      and name: "name = drop (length object + 1) key"
      by (auto simp: names_of_def)
    have "under_prefix object key" using q key ok assms(2) by auto
    then have "key = object @ ''/'' @ name" using under_prefix_name name by simp
    then show "\<exists>q \<in> set (pages @ [p]). object @ ''/'' @ name \<in> set (contents q)"
      using q key by auto
  qed
  show ?thesis
    unfolding Let_def run
    using names by (auto simp: page_step_def add_names_result names_of_snoc Un_assoc)
qed

theorem S3ListAsync_pages_witness:
  "S3ListAsync True 5
     (\<lambda>bucket object tok.
        if tok = None
        then Success \<lparr>contents = [''dir/a'', ''dir/b''], is_truncated = True, next_token = ''t1''\<rparr>
        else Success \<lparr>contents = [''dir/c''], is_truncated = False, next_token = ''''\<rparr>)
     ''bkt'' ''dir'' {}
   = Some ([ListObjectsV2 ''bkt'' ''dir'' None, ListObjectsV2 ''bkt'' ''dir'' (Some ''t1'')],
           Inr {''a'', ''b'', ''c''})"
proof -
  let ?p1 = "\<lparr>contents = [''dir/a'', ''dir/b''], is_truncated = True, next_token = ''t1''\<rparr>"
  let ?p2 = "\<lparr>contents = [''dir/c''], is_truncated = False, next_token = ''''\<rparr>"
  let ?remote = "\<lambda>(bucket::string) (object::string) tok.
        if tok = None then Success ?p1 else Success ?p2"
  have w: "walk ?remote ''bkt'' ''dir'' None ([?p1] @ [?p2])" by simp
  have ok: "\<forall>q \<in> set [?p1]. \<forall>key \<in> set (contents q). under_prefix ''dir'' key"
    by (simp add: under_prefix_def)
  show ?thesis
    using S3ListAsync_pages [OF w ok, of 3 "{}"]
    by (simp add: Let_def under_prefix_def names_of_def request_tokens_def insert_commute)
qed

section \<open>Groups of asynchronous operations\<close>

lemma await_resolves:
  assumes "f \<in> resolved \<union> set schedule"
  shows "\<exists>seen rest. await f schedule resolved = Some (seen, rest) \<and> schedule = seen @ rest"
  using assms
proof (induction schedule arbitrary: resolved)
  case Nil
  then show ?case by simp
next
  case (Cons g schedule)
  show ?case
  proof (cases "f \<in> resolved")
    case True
    then show ?thesis by simp
  next
    case False
    then have "f \<in> insert g resolved \<union> set schedule" using Cons.prems by auto
    then obtain seen rest where "await f schedule (insert g resolved) = Some (seen, rest)"
      and "schedule = seen @ rest"
      using Cons.IH by blast
    then show ?thesis using False by simp
  qed
qed

lemma first_error_append:
  "first_error (xs @ ys) = (case first_error xs of Inl e \<Rightarrow> Inl e | Inr _ \<Rightarrow> first_error ys)"
  by (induction xs rule: first_error.induct) auto

lemma first_error_two: "first_error [r, c] = note_error r c"
  by (cases r; cases c) (simp_all add: note_error_def)

lemma note_error_first_error:
  "note_error (note_error (first_error rs) r) c = first_error (rs @ [r, c])"
  unfolding first_error_append first_error_two
  by (simp add: note_error_def split: sum.splits)

lemma future_reported:
  "entry \<in> set queue \<Longrightarrow>
   result_of (op_future entry) \<in> set (fst (reports_in_order result_of queue s))"
proof (induction queue arbitrary: s)
  case Nil
  then show ?case by simp
next
  case (Cons e queue)
  obtain c s' where oc: "op_on_complete e s = (c, s')" by (cases "op_on_complete e s") auto
  obtain rs s'' where ro: "reports_in_order result_of queue s' = (rs, s'')"
    by (cases "reports_in_order result_of queue s'") auto
  show ?case
  proof (cases "entry = e")
    case True
    then show ?thesis using oc ro by simp
  next
    case False
    then have "result_of (op_future entry) \<in> set (fst (reports_in_order result_of queue s'))"
      using Cons by simp
    then show ?thesis using oc ro by simp
  qed
qed

lemma drain_in_order:
  assumes "\<forall>entry \<in> set queue. op_future entry \<in> d_resolved d \<union> set (d_schedule d)"
  shows "\<exists>d'. drain result_of queue d = Inr d'
           \<and> d_state d' = snd (reports_in_order result_of queue (d_state d))
           \<and> (\<forall>rs0. d_first_error d = first_error rs0 \<longrightarrow>
                d_first_error d'
                  = first_error (rs0 @ fst (reports_in_order result_of queue (d_state d))))
           \<and> filter is_invoked (d_events d')
               = filter is_invoked (d_events d) @ map (\<lambda>entry. Invoked (op_label entry)) queue"
  using assms
proof (induction queue arbitrary: d)
  case Nil
  then show ?case by simp
next
  case (Cons entry queue)
  have "op_future entry \<in> d_resolved d \<union> set (d_schedule d)" using Cons.prems by simp
  then obtain seen rest where aw: "await (op_future entry) (d_schedule d) (d_resolved d)
      = Some (seen, rest)" and split: "d_schedule d = seen @ rest"
    using await_resolves by blast
  obtain c st' where oc: "op_on_complete entry (d_state d) = (c, st')"
    by (cases "op_on_complete entry (d_state d)") auto
  obtain rs st'' where ro: "reports_in_order result_of queue st' = (rs, st'')"
    by (cases "reports_in_order result_of queue st'") auto
  define d1 where "d1 = \<lparr> d_schedule = rest,
                   d_resolved = d_resolved d \<union> set seen,
                   d_first_error =
                     note_error (note_error (d_first_error d) (result_of (op_future entry))) c,
                   d_events = d_events d @ map Resolved seen @ [Invoked (op_label entry)],
                   d_state = st' \<rparr>"
  have step: "drain result_of (entry # queue) d = drain result_of queue d1"
    using aw oc by (simp add: d1_def)
  have "\<forall>e \<in> set queue. op_future e \<in> d_resolved d1 \<union> set (d_schedule d1)"
    using Cons.prems split by (auto simp: d1_def)
  then obtain d' where dr: "drain result_of queue d1 = Inr d'"
    and st: "d_state d' = snd (reports_in_order result_of queue (d_state d1))"
    and er: "\<forall>rs0. d_first_error d1 = first_error rs0 \<longrightarrow>
                d_first_error d'
                  = first_error (rs0 @ fst (reports_in_order result_of queue (d_state d1)))"
    and ev: "filter is_invoked (d_events d')
               = filter is_invoked (d_events d1) @ map (\<lambda>entry. Invoked (op_label entry)) queue"
    using Cons.IH [of d1] by blast
  have inv: "filter is_invoked (map Resolved seen) = []" by (induction seen) auto
  have e1: "d_first_error d' = first_error (rs0 @ result_of (op_future entry) # c # rs)"
    if "d_first_error d = first_error rs0" for rs0
  proof -
    have "d_first_error d1 = first_error (rs0 @ [result_of (op_future entry), c])"
      using that note_error_first_error by (simp add: d1_def)
    then have "d_first_error d'
        = first_error ((rs0 @ [result_of (op_future entry), c]) @ rs)"
      using er ro by (simp add: d1_def)
    then show ?thesis by simp
  qed
  show ?case
    using step dr st e1 ev oc ro inv by (simp add: d1_def)
qed

text \<open>
  Claim C5. If every registered future resolves at some time, in whatever order,
  \<open>finish\<close> returns; the continuations it invoked are those of all registered
  operations, in the order of registration; the queue is drained; the caller's state
  is the one the continuations leave when run in that order; the result is the first
  error among the reports in the order of registration, so success is reported only
  if every future resolved without error (and every continuation returned none).
\<close>

theorem Finish_fifo_first_error:
  assumes "\<forall>entry \<in> set (pending grp). op_future entry \<in> set schedule"
  shows "\<exists>events.
           Finish result_of schedule grp st
             = Inr (first_error (fst (reports_in_order result_of (pending grp) st)), events,
                    snd (reports_in_order result_of (pending grp) st), grp\<lparr>pending := []\<rparr>)
           \<and> filter is_invoked events = map (\<lambda>entry. Invoked (op_label entry)) (pending grp)
           \<and> (first_error (fst (reports_in_order result_of (pending grp) st)) = Inr () \<longrightarrow>
                (\<forall>entry \<in> set (pending grp). result_of (op_future entry) = Inr ()))"
proof -
  let ?d0 = "\<lparr> d_schedule = schedule, d_resolved = {}, d_first_error = Inr (),
               d_events = [], d_state = st \<rparr>"
  obtain d' where dr: "drain result_of (pending grp) ?d0 = Inr d'"
    and st: "d_state d' = snd (reports_in_order result_of (pending grp) st)"
    and er: "\<forall>rs0. d_first_error ?d0 = first_error rs0 \<longrightarrow>
                d_first_error d'
                  = first_error (rs0 @ fst (reports_in_order result_of (pending grp) (d_state ?d0)))"
    and ev: "filter is_invoked (d_events d')
               = map (\<lambda>entry. Invoked (op_label entry)) (pending grp)"
    using drain_in_order [of "pending grp" ?d0 result_of] assms by auto
  have "d_first_error ?d0 = first_error []" by simp
  then have fe: "d_first_error d' = first_error (fst (reports_in_order result_of (pending grp) st))"
    using er by fastforce
  have ok: "\<forall>entry \<in> set (pending grp). result_of (op_future entry) = Inr ()"
    if "first_error (fst (reports_in_order result_of (pending grp) st)) = Inr ()"
  proof
    fix entry
    assume "entry \<in> set (pending grp)"
    then have "result_of (op_future entry)
                 \<in> set (fst (reports_in_order result_of (pending grp) st))"
      by (rule future_reported)
    then show "result_of (op_future entry) = Inr ()"
      using that first_error_success by blast
  qed
  show ?thesis
    using dr st fe ev ok by (simp add: Finish_def)
qed

theorem Finish_fifo_first_error_witness:
  "Finish (\<lambda>f. if f = 1 then Inl S3Error else Inr ()) [2, 0, 1]
     (AddOp 2 ''C'' (\<lambda>log. (Inr (), log @ [''c'']))
        (AddOp 1 ''B'' (\<lambda>log. (Inr (), log @ [''b'']))
           (AddOp 0 ''A'' (\<lambda>log. (Inr (), log @ [''a''])) \<lparr>pending = []\<rparr>)))
     []
   = Inr (Inl S3Error,
          [Resolved 2, Resolved 0, Invoked ''A'', Resolved 1, Invoked ''B'', Invoked ''C''],
          [''a'', ''b'', ''c''], \<lparr>pending = []\<rparr>)"
proof -
  let ?g = "AddOp 2 ''C'' (\<lambda>log. (Inr (), log @ [''c'']))
        (AddOp 1 ''B'' (\<lambda>log. (Inr (), log @ [''b'']))
           (AddOp 0 ''A'' (\<lambda>log::string list. (Inr (), log @ [''a''])) \<lparr>pending = []\<rparr>))"
  have "\<forall>entry \<in> set (pending ?g). op_future entry \<in> set [2, 0, 1]"
    by (simp add: AddOp_def)
  from Finish_fifo_first_error [OF this, of "\<lambda>f. if f = 1 then Inl S3Error else Inr ()" "[]"]
  obtain events where "Finish (\<lambda>f. if f = 1 then Inl S3Error else Inr ()) [2, 0, 1] ?g []
      = Inr (Inl S3Error, events, [''a'', ''b'', ''c''], \<lparr>pending = []\<rparr>)"
    by (auto simp: AddOp_def)
  moreover have "\<exists>r s g. Finish (\<lambda>f. if f = 1 then Inl S3Error else Inr ()) [2, 0, 1] ?g []
      = Inr (r, [Resolved 2, Resolved 0, Invoked ''A'', Resolved 1, Invoked ''B'', Invoked ''C''],
             s, g)"
    by (simp add: Finish_def AddOp_def note_error_def)
  ultimately show ?thesis by auto
qed

end
